theory Spec2Isabelle
  imports Complex_Main
begin

text \<open>
  A model of the quiz command-line tool: the answer validators, the computation of the
  percentage and the session engine of \<open>quiz.js\<close>, and \<open>saveResult\<close> of
  \<open>resultsManager.js\<close>. Functions of the source keep their names. A synchronous function
  that can throw returns a sum, with the error on the left; an asynchronous one returns
  an outcome together with the state it leaves. The user, the clock and the timer are
  part of the state: a session is run on the sequence of responses the prompts will
  receive.
\<close>

section \<open>Values read from the question file\<close>

text \<open>
  The question bank is parsed JSON. An entry of \<open>correctAnswers\<close>, and the \<open>text\<close> and
  \<open>value\<close> of an option object, is one of the values below. Numbers are the integers
  (indices); \<open>JUndefined\<close> is what reading a missing property or \<open>xs[0]\<close> of an empty
  array gives; \<open>JObject\<close> stands for any array or object, which after parsing is a fresh
  reference and so never \<open>===\<close> to anything else.
\<close>

datatype jsval = JNum int | JStr string | JBool bool | JNull | JUndefined | JObject

text \<open>The operator \<open>===\<close>.\<close>

fun strict_eq :: "jsval \<Rightarrow> jsval \<Rightarrow> bool" where
  "strict_eq (JNum a) (JNum b) = (a = b)"
| "strict_eq (JStr a) (JStr b) = (a = b)"
| "strict_eq (JBool a) (JBool b) = (a = b)"
| "strict_eq JNull JNull = True"
| "strict_eq JUndefined JUndefined = True"
| "strict_eq _ _ = False"

text \<open>\<open>typeof v === 'number'\<close>.\<close>

fun is_number :: "jsval \<Rightarrow> bool" where
  "is_number (JNum _) = True"
| "is_number _ = False"

text \<open>
  An entry of \<open>options\<close>: a string, an object with its \<open>text\<close> and \<open>value\<close> properties
  (\<open>JUndefined\<close> when absent), \<open>null\<close> (whose \<open>typeof\<close> is \<open>'object'\<close>, and whose
  properties cannot be read), or a number or boolean.
\<close>

datatype option_entry = OptStr string | OptObj jsval jsval | OptNull | OptOther

text \<open>
  What the code can throw: a \<open>TypeError\<close> of the runtime (reading a property of
  \<open>undefined\<close> or \<open>null\<close>, calling what is not a function), a \<open>SyntaxError\<close> of
  \<open>JSON.parse\<close>, a file-system error with its \<open>code\<close>, the engine's own
  \<open>Unsupported question type\<close>, and a rejection of the prompt collaborator.
\<close>

datatype error = TypeError | SyntaxError | FsError string | UnsupportedType string
  | PromptFailure string

record question =
  q_id :: string
  q_question :: string
  q_type :: string
  q_description :: "string option"
  q_options :: "option_entry list option"
  q_correctAnswers :: "jsval list option"
  q_sampleAnswers :: "string list option"
  q_keywords :: "string list option"
  q_explanation :: "string option"

section \<open>Answer validators (quiz.js)\<close>

text \<open>
  The predicate handed to \<open>findIndex\<close> in both choice validators:
  \<^verbatim>\<open>(typeof opt === 'string' && opt === answer) ||
   (typeof opt === 'object' && (opt.text === answer || opt.value === answer))\<close>
\<close>

fun option_matches :: "jsval \<Rightarrow> option_entry \<Rightarrow> error + bool" where
  "option_matches answer (OptStr s) = Inr (strict_eq (JStr s) answer)"
| "option_matches answer (OptObj t v) = Inr (strict_eq t answer \<or> strict_eq v answer)"
| "option_matches answer OptNull = Inl TypeError"
| "option_matches answer OptOther = Inr False"

text \<open>\<open>Array.prototype.findIndex\<close>, scanning from index \<open>i\<close>; \<open>-1\<close> when nothing matches.\<close>

fun findIndex_from :: "('a \<Rightarrow> error + bool) \<Rightarrow> 'a list \<Rightarrow> int \<Rightarrow> error + int" where
  "findIndex_from p [] i = Inr (- 1)"
| "findIndex_from p (x # xs) i =
     (case p x of
        Inl e \<Rightarrow> Inl e
      | Inr b \<Rightarrow> if b then Inr i else findIndex_from p xs (i + 1))"

definition findIndex :: "('a \<Rightarrow> error + bool) \<Rightarrow> 'a list \<Rightarrow> error + int" where
  "findIndex p xs = findIndex_from p xs 0"

text \<open>
  The function mapped over \<open>correctAnswers\<close> by \<open>validateMultipleChoice\<close>: a number is
  the index itself, anything else is looked up among \<open>question.options\<close>.
\<close>

definition resolveIndex :: "option_entry list option \<Rightarrow> jsval \<Rightarrow> error + int" where
  "resolveIndex opts answer =
     (case answer of
        JNum n \<Rightarrow> Inr n
      | _ \<Rightarrow> (case opts of
                None \<Rightarrow> Inl TypeError
              | Some os \<Rightarrow> findIndex (option_matches answer) os))"

text \<open>\<open>Array.prototype.map\<close> with a callback that may throw: the first throw ends it.\<close>

fun map_throwing :: "('a \<Rightarrow> error + 'b) \<Rightarrow> 'a list \<Rightarrow> error + 'b list" where
  "map_throwing f [] = Inr []"
| "map_throwing f (x # xs) =
     (case f x of
        Inl e \<Rightarrow> Inl e
      | Inr y \<Rightarrow> (case map_throwing f xs of Inl e \<Rightarrow> Inl e | Inr ys \<Rightarrow> Inr (y # ys)))"

subsection \<open>\<open>JSON.stringify\<close> of an array of integers\<close>

definition digit_char :: "nat \<Rightarrow> char" where
  "digit_char d = char_of (48 + d)"

fun digits :: "nat \<Rightarrow> string" where
  "digits n = (if n < 10 then [digit_char n] else digits (n div 10) @ [digit_char (n mod 10)])"

declare digits.simps [simp del]

definition number_to_string :: "int \<Rightarrow> string" where
  "number_to_string n = (if n < 0 then CHR ''-'' # digits (nat (- n)) else digits (nat n))"

fun join_comma :: "string list \<Rightarrow> string" where
  "join_comma [] = []"
| "join_comma [s] = s"
| "join_comma (s # t # ts) = s @ CHR '','' # join_comma (t # ts)"

definition JSON_stringify :: "int list \<Rightarrow> string" where
  "JSON_stringify xs = CHR ''['' # join_comma (map number_to_string xs) @ [CHR '']'']"

subsection \<open>The two choice validators\<close>

text \<open>
  \<open>validateMultipleChoice(question, userAnswer)\<close>. Reading \<open>.map\<close> of a missing
  \<open>correctAnswers\<close> throws; \<open>.sort((a, b) => a - b)\<close> sorts numerically.
\<close>

definition validateMultipleChoice :: "question \<Rightarrow> int list \<Rightarrow> error + bool" where
  "validateMultipleChoice q userAnswer =
     (case q_correctAnswers q of
        None \<Rightarrow> Inl TypeError
      | Some cas \<Rightarrow>
          (case map_throwing (resolveIndex (q_options q)) cas of
             Inl e \<Rightarrow> Inl e
           | Inr idxs \<Rightarrow> Inr (JSON_stringify userAnswer = JSON_stringify (sort idxs))))"

text \<open>\<open>validateSingleChoice(question, userAnswer)\<close>.\<close>

definition validateSingleChoice :: "question \<Rightarrow> int \<Rightarrow> error + bool" where
  "validateSingleChoice q userAnswer =
     (case q_correctAnswers q of
        None \<Rightarrow> Inl TypeError
      | Some cas \<Rightarrow>
          (let correctAnswer = (case cas of [] \<Rightarrow> JUndefined | a # _ \<Rightarrow> a)
           in if is_number correctAnswer then Inr (strict_eq (JNum userAnswer) correctAnswer)
              else (case q_options q of
                      None \<Rightarrow> Inl TypeError
                    | Some os \<Rightarrow>
                        (case findIndex (option_matches correctAnswer) os of
                           Inl e \<Rightarrow> Inl e
                         | Inr correctIndex \<Rightarrow> Inr (userAnswer = correctIndex)))))"

section \<open>Percentage (quiz.js, finishQuiz)\<close>

text \<open>
  \<open>Math.round((this.score / this.questions.length) * 100)\<close> is computed on IEEE 754
  doubles. A finite double is the rational it denotes; \<open>fl\<close> rounds a non-negative
  rational to the nearest number with a 53-bit significand, ties to even (the range of
  the exponent is not limited, which is exact for quotients of counts below \<open>2^53\<close>).
\<close>

function bit_length :: "int \<Rightarrow> nat" where
  "bit_length n = (if n \<le> 0 then 0 else Suc (bit_length (n div 2)))"
  by pat_completeness auto
termination
  by (relation "measure nat") auto

declare bit_length.simps [simp del]

definition pow2 :: "int \<Rightarrow> rat" where
  "pow2 e = (if 0 \<le> e then 2 ^ nat e else 1 / 2 ^ nat (- e))"

text \<open>The binary exponent \<open>e\<close> of a positive rational: \<open>2^e \<le> x < 2^(e+1)\<close>.\<close>

definition exponent_of :: "rat \<Rightarrow> int" where
  "exponent_of x =
     (let (p, q) = quotient_of x;
          e0 = int (bit_length p) - int (bit_length q)
      in if pow2 e0 \<le> x then e0 else e0 - 1)"

definition round_half_even :: "rat \<Rightarrow> int" where
  "round_half_even m =
     (let f = \<lfloor>m\<rfloor>; d = m - of_int f
      in if d < 1 / 2 then f else if 1 / 2 < d then f + 1 else if even f then f else f + 1)"

definition fl :: "rat \<Rightarrow> rat" where
  "fl x = (if x \<le> 0 then 0
           else let q = pow2 (exponent_of x - 52) in of_int (round_half_even (x / q)) * q)"

datatype jsnum = Num rat | NaN | Infinity

text \<open>\<open>a / b\<close> on two counts: \<open>0 / 0\<close> is \<open>NaN\<close>, \<open>a / 0\<close> is \<open>Infinity\<close>.\<close>

definition js_div :: "nat \<Rightarrow> nat \<Rightarrow> jsnum" where
  "js_div a b =
     (if b = 0 then (if a = 0 then NaN else Infinity) else Num (fl (of_nat a / of_nat b)))"

text \<open>\<open>x * c\<close> for a positive constant \<open>c\<close>.\<close>

fun js_times :: "jsnum \<Rightarrow> rat \<Rightarrow> jsnum" where
  "js_times (Num x) c = Num (fl (x * c))"
| "js_times NaN c = NaN"
| "js_times Infinity c = Infinity"

text \<open>\<open>Math.round\<close>: the nearest integer, a tie going up.\<close>

fun Math_round :: "jsnum \<Rightarrow> jsnum" where
  "Math_round (Num x) = Num (of_int \<lfloor>x + 1 / 2\<rfloor>)"
| "Math_round NaN = NaN"
| "Math_round Infinity = Infinity"

definition percentage_of :: "nat \<Rightarrow> nat \<Rightarrow> jsnum" where
  "percentage_of sc n = Math_round (js_times (js_div sc n) 100)"

section \<open>History store (resultsManager.js)\<close>

text \<open>
  The results file is absent, unreadable (with the error's code), not JSON, JSON that is
  not an array, or an array of results. The directory may be missing, and creating it or
  writing the file may fail: these are the environment's answers, fixed in the state.
  A write that fails is taken to leave the file as it was.
\<close>

datatype 'r file_content = NoFile | ReadError string | BadJson | NotArray | Results "'r list"

datatype 'r parsed = Arr "'r list" | NonArr

record 'r disk =
  dir_present :: bool
  mkdir_error :: "string option"
  results_file :: "'r file_content"
  write_error :: "string option"
  warnings :: "error list"

definition error_code :: "error \<Rightarrow> string option" where
  "error_code e = (case e of FsError c \<Rightarrow> Some c | _ \<Rightarrow> None)"

definition ensureResultsDir :: "'r disk \<Rightarrow> (error + unit) \<times> 'r disk" where
  "ensureResultsDir d =
     (if dir_present d then (Inr (), d)
      else (case mkdir_error d of
              Some c \<Rightarrow> (Inl (FsError c), d)
            | None \<Rightarrow> (Inr (), d\<lparr>dir_present := True\<rparr>)))"

text \<open>The \<open>catch\<close> block of \<open>loadResults\<close>.\<close>

definition loadResults_catch :: "error \<Rightarrow> 'r disk \<Rightarrow> 'r parsed \<times> 'r disk" where
  "loadResults_catch e d =
     (if error_code e = Some ''ENOENT'' then (Arr [], d)
      else (Arr [], d\<lparr>warnings := warnings d @ [e]\<rparr>))"

definition loadResults :: "'r disk \<Rightarrow> 'r parsed \<times> 'r disk" where
  "loadResults d =
     (case ensureResultsDir d of
        (Inl e, d1) \<Rightarrow> loadResults_catch e d1
      | (Inr _, d1) \<Rightarrow>
          (case results_file d1 of
             NoFile \<Rightarrow> loadResults_catch (FsError ''ENOENT'') d1
           | ReadError c \<Rightarrow> loadResults_catch (FsError c) d1
           | BadJson \<Rightarrow> loadResults_catch SyntaxError d1
           | NotArray \<Rightarrow> (NonArr, d1)
           | Results rs \<Rightarrow> (Arr rs, d1)))"

text \<open>The \<open>try\<close> block of \<open>saveResult\<close>; \<open>results.splice(0, n)\<close> drops the first \<open>n\<close>.\<close>

definition saveResult_try :: "'r disk \<Rightarrow> 'r \<Rightarrow> (error + unit) \<times> 'r disk" where
  "saveResult_try d result =
     (case loadResults d of
        (NonArr, d1) \<Rightarrow> (Inl TypeError, d1)
      | (Arr results, d1) \<Rightarrow>
          (let results1 = results @ [result];
               results2 = (if length results1 > 50
                           then drop (length results1 - 50) results1 else results1)
           in case ensureResultsDir d1 of
                (Inl e, d2) \<Rightarrow> (Inl e, d2)
              | (Inr _, d2) \<Rightarrow>
                  (case write_error d2 of
                     Some c \<Rightarrow> (Inl (FsError c), d2)
                   | None \<Rightarrow> (Inr (), d2\<lparr>results_file := Results results2\<rparr>))))"

definition saveResult :: "'r disk \<Rightarrow> 'r \<Rightarrow> (error + unit) \<times> 'r disk" where
  "saveResult d result =
     (case saveResult_try d result of
        (Inl e, d1) \<Rightarrow> (Inr (), d1\<lparr>warnings := warnings d1 @ [e]\<rparr>)
      | (Inr u, d1) \<Rightarrow> (Inr u, d1))"

text \<open>The results the file holds (none when it is not an array of results).\<close>

definition stored :: "'r disk \<Rightarrow> 'r list" where
  "stored d = (case results_file d of Results rs \<Rightarrow> rs | _ \<Rightarrow> [])"

section \<open>Quiz session engine (quiz.js)\<close>

subsection \<open>Records of a session\<close>

datatype user_answer = Selected "int list" | Chosen int | Typed string

text \<open>\<open>question.correctAnswers || question.sampleAnswers\<close>.\<close>

datatype expected = Expected "jsval list" | Samples "string list" | NoExpected

record answer_record =
  ar_questionId :: string
  ar_question :: string
  ar_type :: string
  ar_userAnswer :: user_answer
  ar_isCorrect :: bool
  ar_correctAnswers :: expected
  ar_timestamp :: nat

record session_result =
  sr_timestamp :: nat
  sr_totalQuestions :: nat
  sr_correctAnswers :: nat
  sr_percentage :: jsnum
  sr_duration :: int
  sr_answers :: "answer_record list"

subsection \<open>The prompt collaborator, the clock and the console\<close>

text \<open>
  The values of the self-assessment list: \<open>true\<close>, \<open>false\<close> and \<open>'partial'\<close>.
\<close>

datatype assessment = Correct | Incorrect | Partial

text \<open>
  What the user (through inquirer) answers to one prompt, or \<open>Fails\<close> when the prompt
  rejects. The session's input is the sequence of these, each with the milliseconds the
  engine stays suspended before it arrives.
\<close>

datatype response = Confirm bool | ListChoice int | Checkbox "int list" | Input string
  | SelfAssessment assessment | Fails string

text \<open>
  What the engine does that a caller or user can observe, in order: the console lines
  that carry information (decorative lines are left out) and the call of
  \<open>resultsManager.saveResult\<close>.
\<close>

datatype event = Cancelled | QuestionHeader nat nat | QuestionShown string | KeywordHint
  | Feedback bool | CorrectAnswersShown | TryAgain | TimeLimitReached
  | QuizCompleted nat nat jsnum | SaveResult session_result | QuizError error

text \<open>
  An asynchronous call returns, throws, or stays pending for ever (the user never
  answers).
\<close>

datatype 'a outcome = Returned 'a | Thrown error | Pending

text \<open>
  The fields of a \<open>Quiz\<close> object, followed by the world around it: the clock
  (\<open>Date.now()\<close>), the deadline of the armed \<open>setTimeout\<close> timer if any, the responses
  still to come, and what has been observed so far. Time passes only while the engine
  is suspended in a prompt.
\<close>

record quiz =
  questions :: "question list"
  timeLimit :: nat
  allowRetry :: bool
  currentQuestionIndex :: nat
  answers :: "answer_record list"
  score :: nat
  startTime :: "nat option"
  endTime :: "nat option"
  clock :: nat
  timer :: "nat option"
  inputs :: "(nat \<times> response) list"
  events :: "event list"

text \<open>\<open>new Quiz({questions, timeLimit, allowRetry})\<close>, in a world at time \<open>now\<close>.\<close>

definition new_Quiz :: "question list \<Rightarrow> nat \<Rightarrow> bool \<Rightarrow> nat \<Rightarrow> (nat \<times> response) list \<Rightarrow> quiz" where
  "new_Quiz qs limit retry now ins =
     \<lparr>questions = qs, timeLimit = limit, allowRetry = retry, currentQuestionIndex = 0,
      answers = [], score = 0, startTime = None, endTime = None,
      clock = now, timer = None, inputs = ins, events = []\<rparr>"

definition emit :: "event \<Rightarrow> quiz \<Rightarrow> quiz" where
  "emit ev s = s\<lparr>events := events s @ [ev]\<rparr>"

subsection \<open>Finalization\<close>

text \<open>
  \<open>finishQuiz()\<close>. \<open>this.endTime - this.startTime\<close> reads a \<open>null\<close> start time as 0. The
  result holds the answers as they are at this moment (in the source it refers to the
  array \<open>this.answers\<close> itself, which later attempts go on changing; \<open>saveResult\<close> is
  taken to write it out as it was handed over).
\<close>

definition finishQuiz :: "quiz \<Rightarrow> quiz" where
  "finishQuiz s =
     (let s1 = s\<lparr>endTime := Some (clock s)\<rparr>;
          duration = int (clock s) - (case startTime s1 of None \<Rightarrow> 0 | Some t \<Rightarrow> int t);
          percentage = percentage_of (score s1) (length (questions s1));
          s2 = emit (QuizCompleted (score s1) (length (questions s1)) percentage) s1;
          results = \<lparr>sr_timestamp = clock s,
                     sr_totalQuestions = length (questions s2),
                     sr_correctAnswers = score s2,
                     sr_percentage = percentage,
                     sr_duration = duration,
                     sr_answers = answers s2\<rparr>
      in emit (SaveResult results) s2)"

text \<open>The callback given to \<open>setTimeout\<close> in \<open>start\<close>.\<close>

definition timer_callback :: "quiz \<Rightarrow> quiz" where
  "timer_callback s = finishQuiz (emit TimeLimitReached s)"

text \<open>
  The engine is suspended for \<open>d\<close> milliseconds: an armed timer whose deadline falls in
  that time runs its callback, once, at the deadline.
\<close>

definition elapse :: "nat \<Rightarrow> quiz \<Rightarrow> quiz" where
  "elapse d s =
     (let t = clock s + d
      in case timer s of
           None \<Rightarrow> s\<lparr>clock := t\<rparr>
         | Some deadline \<Rightarrow>
             if deadline \<le> t
             then (timer_callback (s\<lparr>clock := max (clock s) deadline, timer := None\<rparr>))\<lparr>clock := t\<rparr>
             else s\<lparr>clock := t\<rparr>)"

text \<open>The engine stays suspended for ever: an armed timer fires at its deadline.\<close>

definition wait_forever :: "quiz \<Rightarrow> quiz" where
  "wait_forever s =
     (case timer s of
        None \<Rightarrow> s
      | Some deadline \<Rightarrow> timer_callback (s\<lparr>clock := max (clock s) deadline, timer := None\<rparr>))"

text \<open>
  One call of \<open>inquirer.prompt\<close> with a \<open>validate\<close> function: a response that
  \<open>validate\<close> refuses is asked for again.
\<close>

fun await_response :: "(response \<Rightarrow> bool) \<Rightarrow> (nat \<times> response) list \<Rightarrow> quiz \<Rightarrow> response outcome \<times> quiz" where
  "await_response valid [] s = (Pending, wait_forever (s\<lparr>inputs := []\<rparr>))"
| "await_response valid ((d, r) # rest) s =
     (let s1 = elapse d (s\<lparr>inputs := rest\<rparr>)
      in case r of
           Fails m \<Rightarrow> (Thrown (PromptFailure m), s1)
         | _ \<Rightarrow> if valid r then (Returned r, s1) else await_response valid rest s1)"

definition prompt :: "(response \<Rightarrow> bool) \<Rightarrow> quiz \<Rightarrow> response outcome \<times> quiz" where
  "prompt valid s = await_response valid (inputs s) s"

text \<open>
  The five prompts of the engine. A response of another shape than the prompt's is a
  failure of the collaborator.
\<close>

definition unexpected :: error where
  "unexpected = PromptFailure ''unexpected response''"

fun the_confirm :: "response outcome \<Rightarrow> bool outcome" where
  "the_confirm (Returned (Confirm b)) = Returned b"
| "the_confirm (Returned _) = Thrown unexpected"
| "the_confirm (Thrown e) = Thrown e"
| "the_confirm Pending = Pending"

fun the_choice :: "response outcome \<Rightarrow> int outcome" where
  "the_choice (Returned (ListChoice i)) = Returned i"
| "the_choice (Returned _) = Thrown unexpected"
| "the_choice (Thrown e) = Thrown e"
| "the_choice Pending = Pending"

fun the_checkbox :: "response outcome \<Rightarrow> int list outcome" where
  "the_checkbox (Returned (Checkbox xs)) = Returned xs"
| "the_checkbox (Returned _) = Thrown unexpected"
| "the_checkbox (Thrown e) = Thrown e"
| "the_checkbox Pending = Pending"

fun the_input :: "response outcome \<Rightarrow> string outcome" where
  "the_input (Returned (Input t)) = Returned t"
| "the_input (Returned _) = Thrown unexpected"
| "the_input (Thrown e) = Thrown e"
| "the_input Pending = Pending"

fun the_assessment :: "response outcome \<Rightarrow> assessment outcome" where
  "the_assessment (Returned (SelfAssessment a)) = Returned a"
| "the_assessment (Returned _) = Thrown unexpected"
| "the_assessment (Thrown e) = Thrown e"
| "the_assessment Pending = Pending"

definition prompt_confirm :: "quiz \<Rightarrow> bool outcome \<times> quiz" where
  "prompt_confirm s = (case prompt (\<lambda>r. True) s of (r, s1) \<Rightarrow> (the_confirm r, s1))"

definition prompt_list :: "quiz \<Rightarrow> int outcome \<times> quiz" where
  "prompt_list s = (case prompt (\<lambda>r. True) s of (r, s1) \<Rightarrow> (the_choice r, s1))"

text \<open>\<open>validate: input.length === 0\<close> refuses an empty selection.\<close>

definition prompt_checkbox :: "quiz \<Rightarrow> int list outcome \<times> quiz" where
  "prompt_checkbox s =
     (case prompt (\<lambda>r. case r of Checkbox xs \<Rightarrow> xs \<noteq> [] | _ \<Rightarrow> True) s of
        (r, s1) \<Rightarrow> (the_checkbox r, s1))"

text \<open>
  \<open>String.prototype.trim\<close> and \<open>toLowerCase\<close> on the ASCII range: white space is
  tab, line feed, vertical tab, form feed, carriage return and space.
\<close>

definition is_space :: "char \<Rightarrow> bool" where
  "is_space c = (c \<in> set [CHR 0x09, CHR 0x0A, CHR 0x0B, CHR 0x0C, CHR 0x0D, CHR '' ''])"

definition trim :: "string \<Rightarrow> string" where
  "trim t = rev (dropWhile is_space (rev (dropWhile is_space t)))"

definition lower_char :: "char \<Rightarrow> char" where
  "lower_char c =
     (if 65 \<le> (of_char c :: nat) \<and> (of_char c :: nat) \<le> 90 then char_of (of_char c + (32 :: nat)) else c)"

definition toLowerCase :: "string \<Rightarrow> string" where
  "toLowerCase t = map lower_char t"

fun starts_with :: "string \<Rightarrow> string \<Rightarrow> bool" where
  "starts_with t [] = True"
| "starts_with [] (c # cs) = False"
| "starts_with (d # ds) (c # cs) = (d = c \<and> starts_with ds cs)"

text \<open>\<open>String.prototype.includes\<close>.\<close>

fun str_includes :: "string \<Rightarrow> string \<Rightarrow> bool" where
  "str_includes [] needle = (needle = [])"
| "str_includes (c # cs) needle = (starts_with (c # cs) needle \<or> str_includes cs needle)"

text \<open>\<open>validate: !input.trim()\<close> refuses a blank answer.\<close>

definition prompt_input :: "quiz \<Rightarrow> string outcome \<times> quiz" where
  "prompt_input s =
     (case prompt (\<lambda>r. case r of Input t \<Rightarrow> trim t \<noteq> [] | _ \<Rightarrow> True) s of
        (r, s1) \<Rightarrow> (the_input r, s1))"

definition prompt_assessment :: "quiz \<Rightarrow> assessment outcome \<times> quiz" where
  "prompt_assessment s = (case prompt (\<lambda>r. True) s of (r, s1) \<Rightarrow> (the_assessment r, s1))"

subsection \<open>Collecting an answer\<close>

text \<open>
  The label of a choice, \<open>typeof option === 'string' ? option : option.text\<close>, which
  cannot be read from \<open>null\<close>; \<open>question.options.map\<close> cannot be read when the
  question has no options.
\<close>

fun choice_name :: "option_entry \<Rightarrow> error + jsval" where
  "choice_name (OptStr s) = Inr (JStr s)"
| "choice_name (OptObj t v) = Inr t"
| "choice_name OptNull = Inl TypeError"
| "choice_name OptOther = Inr JUndefined"

definition choices :: "question \<Rightarrow> error + jsval list" where
  "choices q =
     (case q_options q of
        None \<Rightarrow> Inl TypeError
      | Some os \<Rightarrow> map_throwing choice_name os)"

definition askMultipleChoice :: "question \<Rightarrow> quiz \<Rightarrow> int list outcome \<times> quiz" where
  "askMultipleChoice q s =
     (case choices q of
        Inl e \<Rightarrow> (Thrown e, s)
      | Inr names \<Rightarrow>
          (case prompt_checkbox s of
             (Returned selectedAnswers, s1) \<Rightarrow> (Returned (sort selectedAnswers), s1)
           | (Thrown e, s1) \<Rightarrow> (Thrown e, s1)
           | (Pending, s1) \<Rightarrow> (Pending, s1)))"

definition askSingleChoice :: "question \<Rightarrow> quiz \<Rightarrow> int outcome \<times> quiz" where
  "askSingleChoice q s =
     (case choices q of
        Inl e \<Rightarrow> (Thrown e, s)
      | Inr names \<Rightarrow> prompt_list s)"

definition askFreeForm :: "question \<Rightarrow> quiz \<Rightarrow> string outcome \<times> quiz" where
  "askFreeForm q s =
     (case prompt_input s of
        (Returned answer, s1) \<Rightarrow> (Returned (trim answer), s1)
      | (Thrown e, s1) \<Rightarrow> (Thrown e, s1)
      | (Pending, s1) \<Rightarrow> (Pending, s1))"

text \<open>\<open>validateFreeForm(question, userAnswer)\<close>: the keyword hint, then the self-assessment.\<close>

definition hasKeywords :: "question \<Rightarrow> string \<Rightarrow> bool" where
  "hasKeywords q userAnswer =
     (case q_keywords q of
        None \<Rightarrow> False
      | Some ks \<Rightarrow> ks \<noteq> [] \<and>
          list_ex (\<lambda>keyword. str_includes (toLowerCase userAnswer) (toLowerCase keyword)) ks)"

definition validateFreeForm :: "question \<Rightarrow> string \<Rightarrow> quiz \<Rightarrow> bool outcome \<times> quiz" where
  "validateFreeForm q userAnswer s =
     (let s0 = (if hasKeywords q userAnswer then emit KeywordHint s else s)
      in case prompt_assessment s0 of
           (Returned selfAssessment, s1) \<Rightarrow>
             (Returned (selfAssessment = Correct \<or> selfAssessment = Partial), s1)
         | (Thrown e, s1) \<Rightarrow> (Thrown e, s1)
         | (Pending, s1) \<Rightarrow> (Pending, s1))"

subsection \<open>Revealing the correct answers\<close>

text \<open>
  The \<open>forEach\<close> of \<open>showCorrectAnswers\<close>: for a number, \<open>question.options[answer]\<close> is
  read, and then its \<open>text\<close> unless it is a string; that read throws when the index is
  outside the options or the option is \<open>null\<close>.
\<close>

fun answer_texts :: "option_entry list option \<Rightarrow> jsval list \<Rightarrow> error + unit" where
  "answer_texts os [] = Inr ()"
| "answer_texts os (a # as) =
     (case a of
        JNum n \<Rightarrow>
          (case os of
             None \<Rightarrow> Inl TypeError
           | Some opts \<Rightarrow>
               if 0 \<le> n \<and> n < int (length opts)
               then (case opts ! nat n of OptNull \<Rightarrow> Inl TypeError | _ \<Rightarrow> answer_texts os as)
               else Inl TypeError)
      | _ \<Rightarrow> answer_texts os as)"

definition showCorrectAnswers :: "question \<Rightarrow> quiz \<Rightarrow> (error + unit) \<times> quiz" where
  "showCorrectAnswers q s =
     (if q_type q = ''multiple-choice'' \<or> q_type q = ''single-choice'' then
        (let s1 = emit CorrectAnswersShown s
         in case q_correctAnswers q of
              None \<Rightarrow> (Inl TypeError, s1)
            | Some cas \<Rightarrow> (answer_texts (q_options q) cas, s1))
      else if q_type q = ''free-form'' then
        (case q_sampleAnswers q of
           None \<Rightarrow> (Inr (), s)
         | Some samples \<Rightarrow>
             if samples \<noteq> [] then (Inr (), emit CorrectAnswersShown s) else (Inr (), s))
      else (Inr (), s))"

subsection \<open>One question\<close>

text \<open>The \<open>switch (question.type)\<close> of \<open>askQuestion\<close>: collect an answer and validate it.\<close>

definition attempt :: "question \<Rightarrow> quiz \<Rightarrow> (user_answer \<times> bool) outcome \<times> quiz" where
  "attempt q s =
     (if q_type q = ''multiple-choice'' then
        (case askMultipleChoice q s of
           (Returned userAnswer, s1) \<Rightarrow>
             (case validateMultipleChoice q userAnswer of
                Inl e \<Rightarrow> (Thrown e, s1)
              | Inr isCorrect \<Rightarrow> (Returned (Selected userAnswer, isCorrect), s1))
         | (Thrown e, s1) \<Rightarrow> (Thrown e, s1)
         | (Pending, s1) \<Rightarrow> (Pending, s1))
      else if q_type q = ''single-choice'' then
        (case askSingleChoice q s of
           (Returned userAnswer, s1) \<Rightarrow>
             (case validateSingleChoice q userAnswer of
                Inl e \<Rightarrow> (Thrown e, s1)
              | Inr isCorrect \<Rightarrow> (Returned (Chosen userAnswer, isCorrect), s1))
         | (Thrown e, s1) \<Rightarrow> (Thrown e, s1)
         | (Pending, s1) \<Rightarrow> (Pending, s1))
      else if q_type q = ''free-form'' then
        (case askFreeForm q s of
           (Returned userAnswer, s1) \<Rightarrow>
             (case validateFreeForm q userAnswer s1 of
                (Returned isCorrect, s2) \<Rightarrow> (Returned (Typed userAnswer, isCorrect), s2)
              | (Thrown e, s2) \<Rightarrow> (Thrown e, s2)
              | (Pending, s2) \<Rightarrow> (Pending, s2))
         | (Thrown e, s1) \<Rightarrow> (Thrown e, s1)
         | (Pending, s1) \<Rightarrow> (Pending, s1))
      else (Thrown (UnsupportedType (q_type q)), s))"

text \<open>The record pushed on \<open>this.answers\<close>.\<close>

definition answer_of :: "question \<Rightarrow> user_answer \<Rightarrow> bool \<Rightarrow> nat \<Rightarrow> answer_record" where
  "answer_of q userAnswer isCorrect now =
     \<lparr>ar_questionId = q_id q, ar_question = q_question q, ar_type = q_type q,
      ar_userAnswer = userAnswer, ar_isCorrect = isCorrect,
      ar_correctAnswers =
        (case q_correctAnswers q of
           Some cas \<Rightarrow> Expected cas
         | None \<Rightarrow> (case q_sampleAnswers q of Some ss \<Rightarrow> Samples ss | None \<Rightarrow> NoExpected)),
      ar_timestamp = now\<rparr>"

text \<open>\<open>this.answers.push({...})\<close>, with \<open>timestamp: Date.now()\<close>.\<close>

definition record_attempt :: "question \<Rightarrow> user_answer \<Rightarrow> bool \<Rightarrow> quiz \<Rightarrow> quiz" where
  "record_attempt q userAnswer isCorrect s =
     s\<lparr>answers := answers s @ [answer_of q userAnswer isCorrect (clock s)]\<rparr>"

subsection \<open>What a suspension leaves untouched\<close>

lemma emit_fields [simp]:
  "inputs (emit ev s) = inputs s" "questions (emit ev s) = questions s"
  "timeLimit (emit ev s) = timeLimit s" "allowRetry (emit ev s) = allowRetry s"
  "answers (emit ev s) = answers s" "score (emit ev s) = score s"
  "timer (emit ev s) = timer s" "clock (emit ev s) = clock s"
  "startTime (emit ev s) = startTime s" "events (emit ev s) = events s @ [ev]"
  by (simp_all add: emit_def)

lemma finishQuiz_fields [simp]:
  "inputs (finishQuiz s) = inputs s" "questions (finishQuiz s) = questions s"
  "timeLimit (finishQuiz s) = timeLimit s" "allowRetry (finishQuiz s) = allowRetry s"
  "answers (finishQuiz s) = answers s" "score (finishQuiz s) = score s"
  "timer (finishQuiz s) = timer s" "clock (finishQuiz s) = clock s"
  "startTime (finishQuiz s) = startTime s"
  by (simp_all add: finishQuiz_def Let_def)

lemma timer_callback_fields [simp]:
  "inputs (timer_callback s) = inputs s" "questions (timer_callback s) = questions s"
  "timeLimit (timer_callback s) = timeLimit s" "allowRetry (timer_callback s) = allowRetry s"
  "answers (timer_callback s) = answers s" "score (timer_callback s) = score s"
  "timer (timer_callback s) = timer s" "clock (timer_callback s) = clock s"
  "startTime (timer_callback s) = startTime s"
  by (simp_all add: timer_callback_def)

lemma elapse_fields [simp]:
  "inputs (elapse d s) = inputs s" "questions (elapse d s) = questions s"
  "timeLimit (elapse d s) = timeLimit s" "allowRetry (elapse d s) = allowRetry s"
  "answers (elapse d s) = answers s" "score (elapse d s) = score s"
  "clock (elapse d s) = clock s + d" "startTime (elapse d s) = startTime s"
  by (simp_all add: elapse_def Let_def split: option.splits)

lemma wait_forever_fields [simp]:
  "inputs (wait_forever s) = inputs s" "questions (wait_forever s) = questions s"
  "timeLimit (wait_forever s) = timeLimit s" "allowRetry (wait_forever s) = allowRetry s"
  "answers (wait_forever s) = answers s" "score (wait_forever s) = score s"
  "startTime (wait_forever s) = startTime s"
  by (simp_all add: wait_forever_def split: option.splits)

lemma await_response_inputs:
  "await_response valid xs s = (r, s') \<Longrightarrow>
     length (inputs s') \<le> length xs \<and> ((\<exists>v. r = Returned v) \<longrightarrow> length (inputs s') < length xs)"
proof (induction xs arbitrary: s)
  case Nil
  then show ?case by auto
next
  case (Cons x xs)
  obtain d a where x: "x = (d, a)" by (cases x)
  show ?case
  proof (cases "\<exists>m. a = Fails m")
    case True
    with Cons.prems x show ?thesis by (auto simp: Let_def)
  next
    case False
    show ?thesis
    proof (cases "valid a")
      case True
      with False Cons.prems x show ?thesis by (cases a) (auto simp: Let_def)
    next
      case nv: False
      with False Cons.prems x
      have "await_response valid xs (elapse d (s\<lparr>inputs := xs\<rparr>)) = (r, s')"
        by (cases a) (auto simp: Let_def)
      from Cons.IH[OF this] show ?thesis by auto
    qed
  qed
qed

lemma prompt_inputs:
  "prompt valid s = (r, s') \<Longrightarrow>
     length (inputs s') \<le> length (inputs s) \<and>
     ((\<exists>v. r = Returned v) \<longrightarrow> length (inputs s') < length (inputs s))"
  unfolding prompt_def by (rule await_response_inputs)

lemma the_confirm_Returned: "the_confirm r = Returned b \<Longrightarrow> \<exists>v. r = Returned v"
  by (cases r) auto

lemma prompt_confirm_inputs:
  "prompt_confirm s = (Returned b, s') \<Longrightarrow> length (inputs s') < length (inputs s)"
  by (auto simp: prompt_confirm_def split: prod.splits dest!: prompt_inputs the_confirm_Returned)

subsection \<open>The retry loop\<close>

text \<open>
  How one pass through the body of \<open>do { ... } while (this.allowRetry)\<close> ends: at a
  \<open>break\<close>, or at the end of the body, where the loop condition is tested.
\<close>

datatype pass = Break | EndOfBody

definition askQuestion_body :: "question \<Rightarrow> quiz \<Rightarrow> pass outcome \<times> quiz" where
  "askQuestion_body q s =
     (case attempt q s of
        (Thrown e, s1) \<Rightarrow> (Thrown e, s1)
      | (Pending, s1) \<Rightarrow> (Pending, s1)
      | (Returned (userAnswer, isCorrect), s1) \<Rightarrow>
          (let s2 = record_attempt q userAnswer isCorrect s1
           in if isCorrect then
                (let s3 = emit (Feedback True) s2
                 in (Returned Break, s3\<lparr>score := score s3 + 1\<rparr>))
              else
                (case showCorrectAnswers q (emit (Feedback False) s2) of
                   (Inl e, s3) \<Rightarrow> (Thrown e, s3)
                 | (Inr u, s3) \<Rightarrow>
                     if allowRetry s3 then
                       (case prompt_confirm s3 of
                          (Thrown e, s4) \<Rightarrow> (Thrown e, s4)
                        | (Pending, s4) \<Rightarrow> (Pending, s4)
                        | (Returned retry, s4) \<Rightarrow>
                            if \<not> retry then (Returned Break, s4)
                            else (let s5 = emit TryAgain s4
                                  in (Returned EndOfBody, s5\<lparr>answers := butlast (answers s5)\<rparr>)))
                     else (Returned Break, s3))))"

lemma askQuestion_body_cases [consumes 1, case_names attempt_thrown attempt_pending correct
    reveal_thrown no_retry retry_thrown retry_pending declined accepted]:
  assumes "askQuestion_body q s = (r, s')"
  obtains
    e where "attempt q s = (Thrown e, s')" "r = Thrown e"
  | "attempt q s = (Pending, s')" "r = Pending"
  | ua s1 where "attempt q s = (Returned (ua, True), s1)" "r = Returned Break"
      "s' = (emit (Feedback True) (record_attempt q ua True s1))\<lparr>score := score s1 + 1\<rparr>"
  | ua s1 e where "attempt q s = (Returned (ua, False), s1)"
      "showCorrectAnswers q (emit (Feedback False) (record_attempt q ua False s1)) = (Inl e, s')"
      "r = Thrown e"
  | ua s1 where "attempt q s = (Returned (ua, False), s1)"
      "showCorrectAnswers q (emit (Feedback False) (record_attempt q ua False s1)) = (Inr (), s')"
      "\<not> allowRetry s'" "r = Returned Break"
  | ua s1 s3 e where "attempt q s = (Returned (ua, False), s1)"
      "showCorrectAnswers q (emit (Feedback False) (record_attempt q ua False s1)) = (Inr (), s3)"
      "allowRetry s3" "prompt_confirm s3 = (Thrown e, s')" "r = Thrown e"
  | ua s1 s3 where "attempt q s = (Returned (ua, False), s1)"
      "showCorrectAnswers q (emit (Feedback False) (record_attempt q ua False s1)) = (Inr (), s3)"
      "allowRetry s3" "prompt_confirm s3 = (Pending, s')" "r = Pending"
  | ua s1 s3 where "attempt q s = (Returned (ua, False), s1)"
      "showCorrectAnswers q (emit (Feedback False) (record_attempt q ua False s1)) = (Inr (), s3)"
      "allowRetry s3" "prompt_confirm s3 = (Returned False, s')" "r = Returned Break"
  | ua s1 s3 s4 where "attempt q s = (Returned (ua, False), s1)"
      "showCorrectAnswers q (emit (Feedback False) (record_attempt q ua False s1)) = (Inr (), s3)"
      "allowRetry s3" "prompt_confirm s3 = (Returned True, s4)" "r = Returned EndOfBody"
      "s' = (emit TryAgain s4)\<lparr>answers := butlast (answers s4)\<rparr>"
proof -
  obtain a s1 where a: "attempt q s = (a, s1)" by (cases "attempt q s")
  show ?thesis
  proof (cases a)
    case (Thrown e)
    with a assms that(1) show ?thesis by (simp add: askQuestion_body_def)
  next
    case Pending
    with a assms that(2) show ?thesis by (simp add: askQuestion_body_def)
  next
    case (Returned p)
    obtain ua ok where p: "p = (ua, ok)" by (cases p)
    show ?thesis
    proof (cases ok)
      case True
      with a Returned p assms that(3)[of ua s1] show ?thesis
        by (simp add: askQuestion_body_def Let_def record_attempt_def emit_def)
    next
      case False
      obtain c s3 where c: "showCorrectAnswers q (emit (Feedback False) (record_attempt q ua False s1)) = (c, s3)"
        by (cases "showCorrectAnswers q (emit (Feedback False) (record_attempt q ua False s1))")
      show ?thesis
      proof (cases c)
        case (Inl e)
        with a Returned p False c assms that(4)[of ua s1 e] show ?thesis
          by (simp add: askQuestion_body_def Let_def)
      next
        case (Inr u)
        show ?thesis
        proof (cases "allowRetry s3")
          case nr: False
          with a Returned p False c Inr assms that(5)[of ua s1] show ?thesis
            by (simp add: askQuestion_body_def Let_def)
        next
          case True
          obtain pr s4 where pr: "prompt_confirm s3 = (pr, s4)" by (cases "prompt_confirm s3")
          show ?thesis
          proof (cases pr)
            case (Thrown e)
            with a Returned p False c Inr True pr assms that(6)[of ua s1 s3 e] show ?thesis
              by (simp add: askQuestion_body_def Let_def)
          next
            case Pending
            with a Returned p False c Inr True pr assms that(7)[of ua s1 s3] show ?thesis
              by (simp add: askQuestion_body_def Let_def)
          next
            case (Returned retry)
            note rr = this
            show ?thesis
            proof (cases retry)
              case True
              with a \<open>a = Returned p\<close> p False c Inr \<open>allowRetry s3\<close> pr rr assms
                that(9)[of ua s1 s3 s4] show ?thesis
                by (simp add: askQuestion_body_def Let_def)
            next
              case nretry: False
              with a \<open>a = Returned p\<close> p False c Inr \<open>allowRetry s3\<close> pr rr assms
                that(8)[of ua s1 s3] show ?thesis
                by (simp add: askQuestion_body_def Let_def)
            qed
          qed
        qed
      qed
    qed
  qed
qed

subsection \<open>What a session has handed to the history store\<close>

fun saved_of :: "event list \<Rightarrow> session_result list" where
  "saved_of [] = []"
| "saved_of (SaveResult r # es) = r # saved_of es"
| "saved_of (ev # es) = saved_of es"

definition saved :: "quiz \<Rightarrow> session_result list" where
  "saved s = saved_of (events s)"

definition correct_count :: "answer_record list \<Rightarrow> nat" where
  "correct_count as = length (filter ar_isCorrect as)"

text \<open>
  A result agrees with a configured number of questions and with its own answers.
\<close>

definition result_ok :: "nat \<Rightarrow> session_result \<Rightarrow> bool" where
  "result_ok n r \<longleftrightarrow>
     sr_totalQuestions r = n \<and>
     sr_correctAnswers r = correct_count (sr_answers r) \<and>
     sr_percentage r = percentage_of (sr_correctAnswers r) n"

text \<open>
  The invariant of the engine: the score counts the correct records, and so does every
  result handed over so far.
\<close>

definition sound :: "quiz \<Rightarrow> bool" where
  "sound s \<longleftrightarrow>
     score s = correct_count (answers s) \<and>
     list_all (result_ok (length (questions s))) (saved s)"

text \<open>
  \<open>observes s s'\<close>: from \<open>s\<close> to \<open>s'\<close> the console only grows, a result is handed over
  only where the timer has fired, and without an armed timer none fires.
\<close>

definition observes :: "quiz \<Rightarrow> quiz \<Rightarrow> bool" where
  "observes s s' \<longleftrightarrow>
     (\<exists>es. events s' = events s @ es \<and>
           (TimeLimitReached \<notin> set es \<longrightarrow> saved_of es = []) \<and>
           (timer s = None \<longrightarrow> TimeLimitReached \<notin> set es \<and> timer s' = None))"

definition advanced :: "quiz \<Rightarrow> quiz \<Rightarrow> bool" where
  "advanced s s' \<longleftrightarrow>
     questions s' = questions s \<and> timeLimit s' = timeLimit s \<and>
     allowRetry s' = allowRetry s \<and> startTime s' = startTime s \<and>
     length (inputs s') \<le> length (inputs s) \<and> observes s s' \<and> (sound s \<longrightarrow> sound s')"

text \<open>
  \<open>snapshots s s'\<close>: every result handed over from \<open>s\<close> to \<open>s'\<close> holds the answers of
  \<open>s\<close> and counts its questions.
\<close>

definition snapshots :: "quiz \<Rightarrow> quiz \<Rightarrow> bool" where
  "snapshots s s' \<longleftrightarrow>
     (\<exists>es. events s' = events s @ es \<and>
           list_all (\<lambda>r. sr_answers r = answers s \<and>
                          sr_totalQuestions r = length (questions s)) (saved_of es))"

definition undisturbed :: "quiz \<Rightarrow> quiz \<Rightarrow> bool" where
  "undisturbed s s' \<longleftrightarrow>
     advanced s s' \<and> answers s' = answers s \<and> score s' = score s \<and> snapshots s s'"

lemma saved_of_append [simp]: "saved_of (xs @ ys) = saved_of xs @ saved_of ys"
  by (induction xs rule: saved_of.induct) simp_all

lemma observes_refl [simp]: "observes s s"
  by (simp add: observes_def)

lemma observes_trans: "observes a b \<Longrightarrow> observes b c \<Longrightarrow> observes a c"
  unfolding observes_def by (elim exE conjE, rule_tac x = "es @ esa" in exI) auto

lemma advanced_refl [simp]: "advanced s s"
  by (simp add: advanced_def)

lemma advanced_trans: "advanced a b \<Longrightarrow> advanced b c \<Longrightarrow> advanced a c"
  unfolding advanced_def using observes_trans by auto

lemma snapshots_trans:
  "snapshots a b \<Longrightarrow> snapshots b c \<Longrightarrow> answers b = answers a \<Longrightarrow>
   questions b = questions a \<Longrightarrow> snapshots a c"
  unfolding snapshots_def by (elim exE conjE, rule_tac x = "es @ esa" in exI) auto

lemma undisturbed_refl [simp]: "undisturbed s s"
  by (simp add: undisturbed_def snapshots_def)

lemma undisturbed_trans: "undisturbed a b \<Longrightarrow> undisturbed b c \<Longrightarrow> undisturbed a c"
  unfolding undisturbed_def using advanced_trans snapshots_trans
  by (auto simp: advanced_def)

lemma undisturbed_advanced: "undisturbed s s' \<Longrightarrow> advanced s s'"
  by (simp add: undisturbed_def)

text \<open>An event other than the timer's and the hand-over disturbs nothing.\<close>

lemma undisturbed_emit:
  "ev \<noteq> TimeLimitReached \<Longrightarrow> saved_of [ev] = [] \<Longrightarrow> undisturbed s (emit ev s)"
  by (simp add: undisturbed_def advanced_def observes_def sound_def saved_def snapshots_def)

lemma sound_finishQuiz: "sound s \<Longrightarrow> sound (finishQuiz s)"
  by (simp add: sound_def finishQuiz_def Let_def saved_def emit_def result_ok_def)

lemma events_finishQuiz:
  "\<exists>c r. events (finishQuiz s) = events s @ [c, SaveResult r] \<and> saved_of [c] = [] \<and>
     sr_answers r = answers s \<and> sr_totalQuestions r = length (questions s)"
  by (simp add: finishQuiz_def Let_def emit_def)

lemma undisturbed_elapse: "undisturbed s (elapse d s)"
proof (cases "timer s")
  case None
  then show ?thesis
    by (simp add: elapse_def Let_def undisturbed_def advanced_def observes_def sound_def saved_def
        snapshots_def)
next
  case (Some deadline)
  show ?thesis
  proof (cases "deadline \<le> clock s + d")
    case False
    with Some show ?thesis
      by (simp add: elapse_def Let_def undisturbed_def advanced_def observes_def sound_def saved_def
          snapshots_def)
  next
    case True
    let ?s0 = "emit TimeLimitReached (s\<lparr>clock := max (clock s) deadline, timer := None\<rparr>)"
    have el: "elapse d s = (finishQuiz ?s0)\<lparr>clock := clock s + d\<rparr>"
      using Some True by (simp add: elapse_def Let_def timer_callback_def)
    obtain c r where ev: "events (finishQuiz ?s0) = events ?s0 @ [c, SaveResult r]"
      "saved_of [c] = []" "sr_answers r = answers s" "sr_totalQuestions r = length (questions s)"
      using events_finishQuiz[of ?s0] by auto
    have snd: "sound s \<Longrightarrow> sound (finishQuiz ?s0)"
      by (rule sound_finishQuiz) (simp add: sound_def saved_def)
    have "sound s \<Longrightarrow> sound (elapse d s)"
      using snd unfolding el by (simp add: sound_def saved_def)
    moreover have "observes s (elapse d s)"
      unfolding observes_def el using ev(1) Some by simp
    moreover have "saved_of [c, SaveResult r] = [r]"
      using ev(2) saved_of_append[of "[c]" "[SaveResult r]"] by simp
    then have "snapshots s (elapse d s)"
      unfolding snapshots_def el using ev by simp
    ultimately show ?thesis
      unfolding undisturbed_def advanced_def using el by simp
  qed
qed

lemma undisturbed_wait_forever: "undisturbed s (wait_forever s)"
proof (cases "timer s")
  case None
  then show ?thesis by (simp add: wait_forever_def)
next
  case (Some deadline)
  let ?s0 = "emit TimeLimitReached (s\<lparr>clock := max (clock s) deadline, timer := None\<rparr>)"
  have el: "wait_forever s = finishQuiz ?s0"
    using Some by (simp add: wait_forever_def timer_callback_def)
  obtain c r where ev: "events (finishQuiz ?s0) = events ?s0 @ [c, SaveResult r]"
    "saved_of [c] = []" "sr_answers r = answers s" "sr_totalQuestions r = length (questions s)"
    using events_finishQuiz[of ?s0] by auto
  have "sound s \<Longrightarrow> sound (finishQuiz ?s0)"
    by (rule sound_finishQuiz) (simp add: sound_def saved_def)
  moreover have "observes s (wait_forever s)"
    unfolding observes_def el using ev(1) Some by simp
  moreover have "saved_of [c, SaveResult r] = [r]"
    using ev(2) saved_of_append[of "[c]" "[SaveResult r]"] by simp
  then have "snapshots s (wait_forever s)"
    unfolding snapshots_def el using ev by simp
  ultimately show ?thesis
    unfolding undisturbed_def advanced_def using el by simp
qed

lemma undisturbed_take_input: "length xs \<le> length (inputs s) \<Longrightarrow> undisturbed s (s\<lparr>inputs := xs\<rparr>)"
  by (simp add: undisturbed_def advanced_def observes_def sound_def saved_def snapshots_def)

lemma undisturbed_await_response:
  "await_response valid xs s = (r, s') \<Longrightarrow> length xs \<le> length (inputs s) \<Longrightarrow> undisturbed s s'"
proof (induction xs arbitrary: s)
  case Nil
  then have "s' = wait_forever (s\<lparr>inputs := []\<rparr>)" by simp
  then show ?case
    using undisturbed_trans[OF undisturbed_take_input[of "[]" s] undisturbed_wait_forever] by simp
next
  case (Cons x xs)
  obtain d a where x: "x = (d, a)" by (cases x)
  let ?s1 = "elapse d (s\<lparr>inputs := xs\<rparr>)"
  have s1: "undisturbed s ?s1"
    using undisturbed_trans[OF undisturbed_take_input[of xs s] undisturbed_elapse] Cons.prems(2)
    by simp
  show ?case
  proof (cases "(\<exists>m. a = Fails m) \<or> valid a")
    case True
    with Cons.prems(1) x have "s' = ?s1" by (cases a) (auto simp: Let_def)
    with s1 show ?thesis by simp
  next
    case False
    with Cons.prems(1) x have "await_response valid xs ?s1 = (r, s')"
      by (cases a) (auto simp: Let_def)
    from Cons.IH[OF this] have "undisturbed ?s1 s'" by simp
    with s1 show ?thesis using undisturbed_trans by blast
  qed
qed

lemma undisturbed_prompt: "prompt valid s = (r, s') \<Longrightarrow> undisturbed s s'"
  unfolding prompt_def using undisturbed_await_response by blast

lemma undisturbed_prompts:
  "prompt_confirm s = (rb, s') \<Longrightarrow> undisturbed s s'"
  "prompt_list s = (ri, s') \<Longrightarrow> undisturbed s s'"
  "prompt_checkbox s = (rc, s') \<Longrightarrow> undisturbed s s'"
  "prompt_input s = (rt, s') \<Longrightarrow> undisturbed s s'"
  "prompt_assessment s = (ra, s') \<Longrightarrow> undisturbed s s'"
  by (auto simp: prompt_confirm_def prompt_list_def prompt_checkbox_def prompt_input_def
      prompt_assessment_def split: prod.splits dest!: undisturbed_prompt)

lemma undisturbed_showCorrectAnswers:
  "showCorrectAnswers q s = (r, s') \<Longrightarrow> undisturbed s s'"
  by (auto simp: showCorrectAnswers_def Let_def undisturbed_emit split: if_splits option.splits)

lemma undisturbed_validateFreeForm:
  assumes "validateFreeForm q a s = (r, s')"
  shows "undisturbed s s'"
proof -
  let ?s0 = "if hasKeywords q a then emit KeywordHint s else s"
  have 0: "undisturbed s ?s0" by (simp add: undisturbed_emit)
  obtain p s1 where p: "prompt_assessment ?s0 = (p, s1)" by (cases "prompt_assessment ?s0")
  have "s' = s1" using assms p
    by (auto simp: validateFreeForm_def Let_def split: outcome.splits if_splits)
  with undisturbed_prompts(5)[OF p] 0 show ?thesis using undisturbed_trans by blast
qed

lemma undisturbed_asks:
  "askMultipleChoice q s = (rc, s') \<Longrightarrow> undisturbed s s'"
  "askSingleChoice q s = (ri, s') \<Longrightarrow> undisturbed s s'"
  "askFreeForm q s = (rt, s') \<Longrightarrow> undisturbed s s'"
  by (auto simp: askMultipleChoice_def askSingleChoice_def askFreeForm_def
      split: sum.splits prod.splits outcome.splits dest!: undisturbed_prompts)

lemma undisturbed_attempt:
  assumes "attempt q s = (r, s')"
  shows "undisturbed s s'"
proof -
  consider (mc) "q_type q = ''multiple-choice''"
    | (sc) "q_type q \<noteq> ''multiple-choice''" "q_type q = ''single-choice''"
    | (ff) "q_type q \<noteq> ''multiple-choice''" "q_type q \<noteq> ''single-choice''" "q_type q = ''free-form''"
    | (other) "q_type q \<noteq> ''multiple-choice''" "q_type q \<noteq> ''single-choice''" "q_type q \<noteq> ''free-form''"
    by blast
  then show ?thesis
  proof cases
    case mc
    obtain a s1 where a: "askMultipleChoice q s = (a, s1)" by (cases "askMultipleChoice q s")
    have "s' = s1" using assms mc a
      by (auto simp: attempt_def split: outcome.splits sum.splits)
    with undisturbed_asks(1)[OF a] show ?thesis by simp
  next
    case sc
    obtain a s1 where a: "askSingleChoice q s = (a, s1)" by (cases "askSingleChoice q s")
    have "s' = s1" using assms sc a
      by (auto simp: attempt_def split: outcome.splits sum.splits)
    with undisturbed_asks(2)[OF a] show ?thesis by simp
  next
    case ff
    obtain a s1 where a: "askFreeForm q s = (a, s1)" by (cases "askFreeForm q s")
    show ?thesis
    proof (cases a)
      case (Returned t)
      obtain v s2 where v: "validateFreeForm q t s1 = (v, s2)" by (cases "validateFreeForm q t s1")
      have "s' = s2" using assms ff a Returned v
        by (auto simp: attempt_def split: outcome.splits)
      with undisturbed_asks(3)[OF a] undisturbed_validateFreeForm[OF v] show ?thesis
        using undisturbed_trans by blast
    next
      case (Thrown e)
      then have "s' = s1" using assms ff a by (auto simp: attempt_def)
      with undisturbed_asks(3)[OF a] show ?thesis by simp
    next
      case Pending
      then have "s' = s1" using assms ff a by (auto simp: attempt_def)
      with undisturbed_asks(3)[OF a] show ?thesis by simp
    qed
  next
    case other
    then have "s' = s" using assms by (auto simp: attempt_def)
    then show ?thesis by simp
  qed
qed

lemma advanced_push_incorrect:
  "advanced s (emit (Feedback False) (record_attempt q ua False s))"
  by (simp add: advanced_def observes_def sound_def record_attempt_def saved_def
      correct_count_def answer_of_def)

lemma advanced_push_correct:
  "advanced s ((emit (Feedback True) (record_attempt q ua True s))\<lparr>score := score s + 1\<rparr>)"
  by (simp add: advanced_def observes_def sound_def record_attempt_def saved_def
      correct_count_def answer_of_def emit_def)

lemma advanced_pop:
  "answers s = xs @ [rec] \<Longrightarrow> \<not> ar_isCorrect rec \<Longrightarrow>
   advanced s ((emit TryAgain s)\<lparr>answers := butlast (answers s)\<rparr>)"
  by (simp add: advanced_def observes_def sound_def saved_def correct_count_def emit_def)

lemma advanced_body:
  assumes "askQuestion_body q s = (r, s')"
  shows "advanced s s'"
  using assms
proof (cases rule: askQuestion_body_cases)
  case (attempt_thrown e)
  then show ?thesis using undisturbed_attempt undisturbed_advanced by blast
next
  case attempt_pending
  then show ?thesis using undisturbed_attempt undisturbed_advanced by blast
next
  case (correct ua s1)
  have "advanced s s1" using undisturbed_attempt[OF correct(1)] undisturbed_advanced by blast
  then show ?thesis unfolding correct(3) using advanced_push_correct advanced_trans by blast
next
  case (reveal_thrown ua s1 e)
  have "advanced s s1" using undisturbed_attempt[OF reveal_thrown(1)] undisturbed_advanced by blast
  moreover have "advanced (emit (Feedback False) (record_attempt q ua False s1)) s'"
    using undisturbed_showCorrectAnswers[OF reveal_thrown(2)] undisturbed_advanced by blast
  ultimately show ?thesis using advanced_push_incorrect[of s1 q ua] advanced_trans by blast
next
  case (no_retry ua s1)
  have "advanced s s1" using undisturbed_attempt[OF no_retry(1)] undisturbed_advanced by blast
  moreover have "advanced (emit (Feedback False) (record_attempt q ua False s1)) s'"
    using undisturbed_showCorrectAnswers[OF no_retry(2)] undisturbed_advanced by blast
  ultimately show ?thesis using advanced_push_incorrect[of s1 q ua] advanced_trans by blast
next
  case (retry_thrown ua s1 s3 e)
  have "advanced s s1" using undisturbed_attempt[OF retry_thrown(1)] undisturbed_advanced by blast
  moreover have "advanced (emit (Feedback False) (record_attempt q ua False s1)) s3"
    using undisturbed_showCorrectAnswers[OF retry_thrown(2)] undisturbed_advanced by blast
  moreover have "advanced s3 s'"
    using undisturbed_prompts(1)[OF retry_thrown(4)] undisturbed_advanced by blast
  ultimately show ?thesis using advanced_push_incorrect[of s1 q ua] advanced_trans by blast
next
  case (retry_pending ua s1 s3)
  have "advanced s s1" using undisturbed_attempt[OF retry_pending(1)] undisturbed_advanced by blast
  moreover have "advanced (emit (Feedback False) (record_attempt q ua False s1)) s3"
    using undisturbed_showCorrectAnswers[OF retry_pending(2)] undisturbed_advanced by blast
  moreover have "advanced s3 s'"
    using undisturbed_prompts(1)[OF retry_pending(4)] undisturbed_advanced by blast
  ultimately show ?thesis using advanced_push_incorrect[of s1 q ua] advanced_trans by blast
next
  case (declined ua s1 s3)
  have "advanced s s1" using undisturbed_attempt[OF declined(1)] undisturbed_advanced by blast
  moreover have "advanced (emit (Feedback False) (record_attempt q ua False s1)) s3"
    using undisturbed_showCorrectAnswers[OF declined(2)] undisturbed_advanced by blast
  moreover have "advanced s3 s'"
    using undisturbed_prompts(1)[OF declined(4)] undisturbed_advanced by blast
  ultimately show ?thesis using advanced_push_incorrect[of s1 q ua] advanced_trans by blast
next
  case (accepted ua s1 s3 s4)
  let ?s2 = "emit (Feedback False) (record_attempt q ua False s1)"
  have 1: "advanced s s1" using undisturbed_attempt[OF accepted(1)] undisturbed_advanced by blast
  have 3: "undisturbed ?s2 s3" using undisturbed_showCorrectAnswers[OF accepted(2)] .
  have 4: "undisturbed s3 s4" using undisturbed_prompts(1)[OF accepted(4)] .
  have 24: "undisturbed ?s2 s4" using 3 4 undisturbed_trans by blast
  have ans: "answers s4 = answers s1 @ [answer_of q ua False (clock s1)]"
    using 24 by (simp add: undisturbed_def record_attempt_def)
  have "advanced s4 s'"
    unfolding accepted(6) by (rule advanced_pop[OF ans]) (simp add: answer_of_def)
  moreover have "advanced s s4"
    using 1 advanced_push_incorrect[of s1 q ua] 24 undisturbed_advanced advanced_trans by blast
  ultimately show ?thesis using advanced_trans by blast
qed

lemma askQuestion_body_inputs:
  assumes "askQuestion_body q s = (r, s')"
  shows "length (inputs s') \<le> length (inputs s) \<and>
     (r = Returned EndOfBody \<longrightarrow> length (inputs s') < length (inputs s))"
proof -
  have le: "length (inputs s') \<le> length (inputs s)"
    using advanced_body[OF assms] by (simp add: advanced_def)
  have "length (inputs s') < length (inputs s)" if "r = Returned EndOfBody"
    using assms
  proof (cases rule: askQuestion_body_cases)
    case (accepted ua s1 s3 s4)
    have "length (inputs s3) \<le> length (inputs s)"
      using undisturbed_attempt[OF accepted(1)] undisturbed_showCorrectAnswers[OF accepted(2)]
      by (simp add: undisturbed_def advanced_def record_attempt_def)
    then show ?thesis using prompt_confirm_inputs[OF accepted(4)] accepted(6) by simp
  qed (use that in simp_all)
  with le show ?thesis by simp
qed

function askQuestion_loop :: "question \<Rightarrow> quiz \<Rightarrow> unit outcome \<times> quiz" where
  "askQuestion_loop q s =
     (case askQuestion_body q s of
        (Thrown e, s1) \<Rightarrow> (Thrown e, s1)
      | (Pending, s1) \<Rightarrow> (Pending, s1)
      | (Returned Break, s1) \<Rightarrow> (Returned (), s1)
      | (Returned EndOfBody, s1) \<Rightarrow>
          if allowRetry s1 then askQuestion_loop q s1 else (Returned (), s1))"
  by pat_completeness auto
termination
  apply (relation "measure (\<lambda>(q, s). length (inputs s))")
   apply simp
  apply (auto dest!: askQuestion_body_inputs[OF sym])
  done

declare askQuestion_loop.simps [simp del]

text \<open>\<open>askQuestion(question)\<close>.\<close>

definition askQuestion :: "question \<Rightarrow> quiz \<Rightarrow> unit outcome \<times> quiz" where
  "askQuestion q s = askQuestion_loop q (emit (QuestionShown (q_id q)) s)"

text \<open>A relation that every pass through the body respects holds across the loop.\<close>

lemma askQuestion_loop_rel:
  assumes body: "\<And>s r s'. askQuestion_body q s = (r, s') \<Longrightarrow> R s s'"
    and trans: "\<And>a b c. R a b \<Longrightarrow> R b c \<Longrightarrow> R a c"
  shows "askQuestion_loop q s = (r, s') \<Longrightarrow> R s s'"
  using body
proof (induction q s arbitrary: r s' rule: askQuestion_loop.induct)
  case (1 q s)
  note body = "1.prems"(2)
  obtain b s1 where b: "askQuestion_body q s = (b, s1)" by (cases "askQuestion_body q s")
  have R1: "R s s1" using body b by blast
  show ?case
  proof (cases "b = Returned EndOfBody \<and> allowRetry s1")
    case True
    then have "askQuestion_loop q s1 = (r, s')"
      using "1.prems"(1) b by (subst (asm) askQuestion_loop.simps) simp
    then have "R s1 s'" using "1.IH"[OF b[symmetric]] b True body by simp
    then show ?thesis using R1 trans by blast
  next
    case False
    then have "s' = s1"
      using "1.prems"(1) b
      by (subst (asm) askQuestion_loop.simps) (auto split: outcome.splits pass.splits if_splits)
    then show ?thesis using R1 by simp
  qed
qed

lemma askQuestion_loop_induct [consumes 1, case_names stop again]:
  assumes run: "askQuestion_loop q s = (r, s')"
    and stop: "\<And>s b. askQuestion_body q s = (b, s') \<Longrightarrow>
                 (b = Returned EndOfBody \<longrightarrow> \<not> allowRetry s') \<Longrightarrow>
                 r = (case b of Returned p \<Rightarrow> Returned () | Thrown e \<Rightarrow> Thrown e | Pending \<Rightarrow> Pending) \<Longrightarrow>
                 P s"
    and again: "\<And>s s1. askQuestion_body q s = (Returned EndOfBody, s1) \<Longrightarrow> allowRetry s1 \<Longrightarrow>
                 askQuestion_loop q s1 = (r, s') \<Longrightarrow> P s1 \<Longrightarrow> P s"
  shows "P s"
  using run
proof (induction "length (inputs s)" arbitrary: s rule: less_induct)
  case less
  obtain b s1 where b: "askQuestion_body q s = (b, s1)" by (cases "askQuestion_body q s")
  show ?case
  proof (cases "b = Returned EndOfBody \<and> allowRetry s1")
    case True
    then have next_run: "askQuestion_loop q s1 = (r, s')"
      using less.prems b by (subst (asm) askQuestion_loop.simps) simp
    have "length (inputs s1) < length (inputs s)"
      using askQuestion_body_inputs[OF b] True by simp
    then have "P s1" using less.hyps next_run by blast
    then show ?thesis using again[of s s1] b True next_run by simp
  next
    case False
    then have "s' = s1 \<and> r = (case b of Returned p \<Rightarrow> Returned () | Thrown e \<Rightarrow> Thrown e | Pending \<Rightarrow> Pending)"
      using less.prems b
      by (subst (asm) askQuestion_loop.simps) (auto split: outcome.splits pass.splits if_splits)
    then show ?thesis using stop[of s b] b False by auto
  qed
qed

lemma advanced_askQuestion_loop:
  "askQuestion_loop q s = (r, s') \<Longrightarrow> advanced s s'"
  by (rule askQuestion_loop_rel[where R = advanced and q = q])
     (auto intro: advanced_body advanced_trans)

lemma advanced_askQuestion:
  assumes "askQuestion q s = (r, s')"
  shows "advanced s s'"
proof -
  have "advanced s (emit (QuestionShown (q_id q)) s)"
    by (rule undisturbed_advanced, rule undisturbed_emit) simp_all
  moreover have "advanced (emit (QuestionShown (q_id q)) s) s'"
    using assms advanced_askQuestion_loop unfolding askQuestion_def by blast
  ultimately show ?thesis using advanced_trans by blast
qed

subsection \<open>What one question leaves in the answers\<close>

text \<open>
  \<open>one_more q s s'\<close>: from \<open>s\<close> to \<open>s'\<close> exactly one record was added, for question
  \<open>q\<close>, and the score went up by one exactly when that record is marked correct.
\<close>

definition one_more :: "question \<Rightarrow> quiz \<Rightarrow> quiz \<Rightarrow> bool" where
  "one_more q s s' \<longleftrightarrow>
     (\<exists>rec. answers s' = answers s @ [rec] \<and> ar_questionId rec = q_id q \<and>
            score s' = score s + (if ar_isCorrect rec then 1 else 0))"

definition at_most_one_more :: "question \<Rightarrow> quiz \<Rightarrow> quiz \<Rightarrow> bool" where
  "at_most_one_more q s s' \<longleftrightarrow>
     (answers s' = answers s \<and> score s' = score s) \<or> one_more q s s'"

lemma askQuestion_body_answers:
  assumes "askQuestion_body q s = (r, s')"
  shows "(r = Returned EndOfBody \<longrightarrow> answers s' = answers s \<and> score s' = score s \<and> allowRetry s') \<and>
         (r = Returned Break \<longrightarrow> one_more q s s') \<and>
         at_most_one_more q s s'"
  using assms
proof (cases rule: askQuestion_body_cases)
  case (attempt_thrown e)
  then show ?thesis using undisturbed_attempt[OF attempt_thrown(1)]
    by (simp add: undisturbed_def at_most_one_more_def)
next
  case attempt_pending
  then show ?thesis using undisturbed_attempt[OF attempt_pending(1)]
    by (simp add: undisturbed_def at_most_one_more_def)
next
  case (correct ua s1)
  then show ?thesis using undisturbed_attempt[OF correct(1)]
    by (simp add: undisturbed_def at_most_one_more_def one_more_def record_attempt_def answer_of_def)
next
  case (reveal_thrown ua s1 e)
  then show ?thesis
    using undisturbed_attempt[OF reveal_thrown(1)] undisturbed_showCorrectAnswers[OF reveal_thrown(2)]
    by (simp add: undisturbed_def at_most_one_more_def one_more_def record_attempt_def answer_of_def)
next
  case (no_retry ua s1)
  then show ?thesis
    using undisturbed_attempt[OF no_retry(1)] undisturbed_showCorrectAnswers[OF no_retry(2)]
    by (simp add: undisturbed_def at_most_one_more_def one_more_def record_attempt_def answer_of_def)
next
  case (retry_thrown ua s1 s3 e)
  then show ?thesis
    using undisturbed_attempt[OF retry_thrown(1)] undisturbed_showCorrectAnswers[OF retry_thrown(2)]
      undisturbed_prompts(1)[OF retry_thrown(4)]
    by (simp add: undisturbed_def at_most_one_more_def one_more_def record_attempt_def answer_of_def)
next
  case (retry_pending ua s1 s3)
  then show ?thesis
    using undisturbed_attempt[OF retry_pending(1)] undisturbed_showCorrectAnswers[OF retry_pending(2)]
      undisturbed_prompts(1)[OF retry_pending(4)]
    by (simp add: undisturbed_def at_most_one_more_def one_more_def record_attempt_def answer_of_def)
next
  case (declined ua s1 s3)
  then show ?thesis
    using undisturbed_attempt[OF declined(1)] undisturbed_showCorrectAnswers[OF declined(2)]
      undisturbed_prompts(1)[OF declined(4)]
    by (simp add: undisturbed_def at_most_one_more_def one_more_def record_attempt_def answer_of_def)
next
  case (accepted ua s1 s3 s4)
  then show ?thesis
    using undisturbed_attempt[OF accepted(1)] undisturbed_showCorrectAnswers[OF accepted(2)]
      undisturbed_prompts(1)[OF accepted(4)]
    by (simp add: undisturbed_def advanced_def at_most_one_more_def record_attempt_def)
qed

lemma askQuestion_loop_answers:
  assumes "askQuestion_loop q s = (r, s')"
  shows "(r = Returned () \<longrightarrow> one_more q s s') \<and> at_most_one_more q s s'"
  using assms
proof (induction rule: askQuestion_loop_induct)
  case (stop s b)
  show ?case
  proof (cases b)
    case (Returned p)
    with stop askQuestion_body_answers[OF stop(1)] show ?thesis by (cases p) auto
  next
    case (Thrown e)
    with stop askQuestion_body_answers[OF stop(1)] show ?thesis by simp
  next
    case Pending
    with stop askQuestion_body_answers[OF stop(1)] show ?thesis by simp
  qed
next
  case (again s s1)
  then show ?case using askQuestion_body_answers[OF again(1)]
    by (simp add: one_more_def at_most_one_more_def)
qed

lemma askQuestion_answers:
  assumes "askQuestion q s = (r, s')"
  shows "(r = Returned () \<longrightarrow> one_more q s s') \<and> at_most_one_more q s s'"
  using askQuestion_loop_answers[OF assms[unfolded askQuestion_def]]
  by (simp add: one_more_def at_most_one_more_def)

subsection \<open>The session\<close>

text \<open>The \<open>for\<close> loop of \<open>start\<close>, from index \<open>i\<close>.\<close>

function runQuestions :: "nat \<Rightarrow> quiz \<Rightarrow> unit outcome \<times> quiz" where
  "runQuestions i s =
     (if i < length (questions s) then
        (let s1 = s\<lparr>currentQuestionIndex := i\<rparr>;
             question = questions s1 ! i;
             s2 = emit (QuestionHeader (i + 1) (length (questions s1))) s1
         in case askQuestion question s2 of
              (Returned u, s3) \<Rightarrow> runQuestions (i + 1) s3
            | (Thrown e, s3) \<Rightarrow> (Thrown e, s3)
            | (Pending, s3) \<Rightarrow> (Pending, s3))
      else (Returned (), s))"
  by pat_completeness auto
termination
  apply (relation "measure (\<lambda>(i, s). length (questions s) - i)")
   apply simp
  apply (auto dest!: advanced_askQuestion[OF sym] simp: advanced_def)
  done

declare runQuestions.simps [simp del]

text \<open>\<open>clearTimeout(timeoutId)\<close> under \<open>if (timeoutId)\<close>.\<close>

definition clearTimeout :: "nat option \<Rightarrow> quiz \<Rightarrow> quiz" where
  "clearTimeout timeoutId s = (case timeoutId of None \<Rightarrow> s | Some t \<Rightarrow> s\<lparr>timer := None\<rparr>)"

text \<open>
  The start of a confirmed session: \<open>this.startTime = Date.now()\<close>, then the timer is
  armed when a time limit is set. The first component is \<open>timeoutId\<close>.
\<close>

definition begin_session :: "quiz \<Rightarrow> nat option \<times> quiz" where
  "begin_session s =
     (let s1 = s\<lparr>startTime := Some (clock s)\<rparr>
      in if 0 < timeLimit s1
         then (Some (clock s1 + timeLimit s1), s1\<lparr>timer := Some (clock s1 + timeLimit s1)\<rparr>)
         else (None, s1))"

text \<open>
  \<open>start()\<close>. The confirmation prompt is outside the \<open>try\<close>; what the iteration throws
  is caught and written to the console.
\<close>

definition start :: "quiz \<Rightarrow> unit outcome \<times> quiz" where
  "start s =
     (case prompt_confirm s of
        (Thrown e, s1) \<Rightarrow> (Thrown e, s1)
      | (Pending, s1) \<Rightarrow> (Pending, s1)
      | (Returned confirmStart, s1) \<Rightarrow>
          if \<not> confirmStart then (Returned (), emit Cancelled s1)
          else
            (case begin_session s1 of
               (timeoutId, s2) \<Rightarrow>
                 (case runQuestions 0 s2 of
                    (Returned u, s3) \<Rightarrow> (Returned (), finishQuiz (clearTimeout timeoutId s3))
                  | (Thrown e, s3) \<Rightarrow> (Returned (), emit (QuizError e) (clearTimeout timeoutId s3))
                  | (Pending, s3) \<Rightarrow> (Pending, s3))))"

section \<open>Facts about \<open>JSON.stringify\<close>\<close>

definition is_digit :: "char \<Rightarrow> bool" where
  "is_digit c = (48 \<le> (of_char c :: nat) \<and> (of_char c :: nat) \<le> 57)"

lemma digit_char_is_digit: "d < 10 \<Longrightarrow> is_digit (digit_char d)"
  by (simp add: is_digit_def digit_char_def)

lemma of_char_digit_char: "d < 10 \<Longrightarrow> of_char (digit_char d) = 48 + d"
  by (simp add: digit_char_def)

lemma digits_all_digit: "c \<in> set (digits n) \<Longrightarrow> is_digit c"
proof (induction n rule: digits.induct)
  case (1 n)
  show ?case
  proof (cases "n < 10")
    case True
    with 1(2) show ?thesis by (simp add: digits.simps[of n] digit_char_is_digit)
  next
    case False
    with 1 show ?thesis by (auto simp add: digits.simps[of n] digit_char_is_digit)
  qed
qed

lemma digits_nonempty: "digits n \<noteq> []"
  by (subst digits.simps) simp

definition undigits :: "string \<Rightarrow> nat" where
  "undigits s = foldl (\<lambda>a c. 10 * a + (of_char c - 48)) 0 s"

lemma undigits_digits: "undigits (digits n) = n"
proof (induction n rule: digits.induct)
  case (1 n)
  show ?case
  proof (cases "n < 10")
    case True
    then show ?thesis by (simp add: digits.simps[of n] undigits_def of_char_digit_char)
  next
    case False
    then have "undigits (digits (n div 10)) = n div 10" using 1 by simp
    with False show ?thesis
      by (simp add: digits.simps[of n] undigits_def of_char_digit_char)
  qed
qed

lemma digits_inj: "digits m = digits n \<Longrightarrow> m = n"
  by (metis undigits_digits)

lemma minus_not_digit: "\<not> is_digit CHR ''-''" by (simp add: is_digit_def)
lemma comma_not_digit: "\<not> is_digit CHR '',''" by (simp add: is_digit_def)

lemma hd_digits_digit: "is_digit (hd (digits n))"
  using digits_all_digit[of "hd (digits n)" n] digits_nonempty[of n] by simp

lemma number_to_string_inj: "number_to_string m = number_to_string n \<Longrightarrow> m = n"
proof -
  assume eq: "number_to_string m = number_to_string n"
  have neg: "\<And>a b. CHR ''-'' # digits a \<noteq> digits b"
    using hd_digits_digit minus_not_digit by (metis list.sel(1))
  show ?thesis
  proof (cases "m < 0")
    case True
    show ?thesis
    proof (cases "n < 0")
      case True
      with \<open>m < 0\<close> eq have "nat (- m) = nat (- n)" by (auto simp: number_to_string_def dest: digits_inj)
      with True \<open>m < 0\<close> show ?thesis by simp
    next
      case False
      with \<open>m < 0\<close> eq neg show ?thesis by (simp add: number_to_string_def)
    qed
  next
    case False
    show ?thesis
    proof (cases "n < 0")
      case True
      with False eq neg[of "nat (- n)" "nat m"] show ?thesis by (simp add: number_to_string_def)
    next
      case nn: False
      with False eq have "nat m = nat n" by (auto simp: number_to_string_def dest: digits_inj)
      with False nn show ?thesis by simp
    qed
  qed
qed

lemma number_to_string_no_comma: "CHR '','' \<notin> set (number_to_string n)"
  using digits_all_digit comma_not_digit by (auto simp: number_to_string_def)

lemma number_to_string_nonempty: "number_to_string n \<noteq> []"
  by (simp add: number_to_string_def digits_nonempty)

lemma join_comma_Cons:
  "join_comma (s # ss) = s @ (if ss = [] then [] else CHR '','' # join_comma ss)"
  by (cases ss) simp_all

lemma takeWhile_sep: "c \<notin> set s \<Longrightarrow> takeWhile (\<lambda>x. x \<noteq> c) (s @ c # r) = s"
  by (induction s) auto

lemma dropWhile_sep: "c \<notin> set s \<Longrightarrow> dropWhile (\<lambda>x. x \<noteq> c) (s @ c # r) = c # r"
  by (induction s) auto

lemma takeWhile_all: "c \<notin> set s \<Longrightarrow> takeWhile (\<lambda>x. x \<noteq> c) s = s"
  by (induction s) auto

lemma dropWhile_all: "c \<notin> set s \<Longrightarrow> dropWhile (\<lambda>x. x \<noteq> c) s = []"
  by (induction s) auto

lemma takeWhile_join:
  "CHR '','' \<notin> set s \<Longrightarrow> takeWhile (\<lambda>c. c \<noteq> CHR '','') (join_comma (s # ss)) = s"
  by (simp add: join_comma_Cons takeWhile_sep takeWhile_all del: join_comma.simps)

lemma dropWhile_join:
  "CHR '','' \<notin> set s \<Longrightarrow> dropWhile (\<lambda>c. c \<noteq> CHR '','') (join_comma (s # ss)) =
     (if ss = [] then [] else CHR '','' # join_comma ss)"
  by (simp add: join_comma_Cons dropWhile_sep dropWhile_all del: join_comma.simps)

lemma join_comma_inj:
  "\<forall>s \<in> set ss. CHR '','' \<notin> set s \<and> s \<noteq> [] \<Longrightarrow>
   \<forall>t \<in> set ts. CHR '','' \<notin> set t \<and> t \<noteq> [] \<Longrightarrow>
   join_comma ss = join_comma ts \<Longrightarrow> ss = ts"
proof (induction ss arbitrary: ts)
  case Nil
  then show ?case by (cases ts) (auto simp: join_comma_Cons simp del: join_comma.simps(2,3))
next
  case (Cons s ss)
  show ?case
  proof (cases ts)
    case Nil
    with Cons.prems show ?thesis by (auto simp: join_comma_Cons simp del: join_comma.simps(2,3))
  next
    case (Cons t ts')
    have s: "CHR '','' \<notin> set s" and t: "CHR '','' \<notin> set t"
      using Cons.prems(1,2) Cons by auto
    have eq: "join_comma (s # ss) = join_comma (t # ts')" using Cons.prems(3) Cons by simp
    have "s = t" using takeWhile_join[OF s, of ss] takeWhile_join[OF t, of ts'] eq by simp
    moreover have "(if ss = [] then [] else CHR '','' # join_comma ss) =
                   (if ts' = [] then [] else CHR '','' # join_comma ts')"
      using dropWhile_join[OF s, of ss] dropWhile_join[OF t, of ts'] eq by simp
    then have "ss = ts'"
      using Cons.IH[of ts'] Cons.prems(1,2) Cons by (auto split: if_splits)
    ultimately show ?thesis using Cons by simp
  qed
qed

lemma JSON_stringify_inj: "JSON_stringify xs = JSON_stringify ys \<longleftrightarrow> xs = ys"
proof
  assume "JSON_stringify xs = JSON_stringify ys"
  then have "join_comma (map number_to_string xs) = join_comma (map number_to_string ys)"
    by (simp add: JSON_stringify_def)
  then have "map number_to_string xs = map number_to_string ys"
    by (intro join_comma_inj) (auto simp: number_to_string_no_comma number_to_string_nonempty)
  then show "xs = ys"
    using number_to_string_inj by (metis inj_onI list.inj_map_strong)
qed simp

section \<open>Single-choice and multiple-choice validation\<close>

text \<open>Two questions used as concrete instances.\<close>

definition sc_example :: question where
  "sc_example =
     \<lparr>q_id = ''sc'', q_question = ''Which one?'', q_type = ''single-choice'',
      q_description = None,
      q_options = Some [OptStr ''A'', OptObj (JStr ''Bee'') (JStr ''B''), OptStr ''C''],
      q_correctAnswers = Some [JStr ''B''], q_sampleAnswers = None, q_keywords = None,
      q_explanation = None\<rparr>"

definition mc_example :: question where
  "mc_example =
     \<lparr>q_id = ''mc'', q_question = ''Which ones?'', q_type = ''multiple-choice'',
      q_description = None,
      q_options = Some [OptStr ''A'', OptStr ''B'', OptStr ''C'', OptStr ''D''],
      q_correctAnswers = Some [JNum 0, JStr ''C'', JNum 1], q_sampleAnswers = None,
      q_keywords = None, q_explanation = None\<rparr>"

lemma findIndex_from_range:
  "findIndex_from p xs i = Inr k \<Longrightarrow> 0 \<le> i \<Longrightarrow> k = - 1 \<or> (i \<le> k \<and> k < i + int (length xs))"
proof (induction xs arbitrary: i)
  case Nil
  then show ?case by simp
next
  case (Cons x xs)
  show ?case
  proof (cases "p x = Inr False")
    case True
    with Cons.prems have "findIndex_from p xs (i + 1) = Inr k" by simp
    from Cons.IH[OF this] Cons.prems(2) show ?thesis by auto
  next
    case False
    with Cons.prems show ?thesis by (auto split: sum.splits if_splits)
  qed
qed

lemma findIndex_from_none:
  "findIndex_from p xs i = Inr (- 1) \<Longrightarrow> 0 \<le> i \<Longrightarrow> \<forall>x \<in> set xs. p x = Inr False"
proof (induction xs arbitrary: i)
  case Nil
  then show ?case by simp
next
  case (Cons x xs)
  then show ?case by (auto split: sum.splits if_splits)
qed

lemma findIndex_from_found:
  "findIndex_from p xs i = Inr k \<Longrightarrow> 0 \<le> i \<Longrightarrow> k \<noteq> - 1 \<Longrightarrow>
     p (xs ! nat (k - i)) = Inr True \<and> (\<forall>j < nat (k - i). p (xs ! j) = Inr False)"
proof (induction xs arbitrary: i)
  case Nil
  then show ?case by simp
next
  case (Cons x xs)
  show ?case
  proof (cases "p x")
    case (Inl e)
    with Cons.prems show ?thesis by simp
  next
    case (Inr b)
    show ?thesis
    proof (cases b)
      case True
      with Inr Cons.prems show ?thesis by simp
    next
      case False
      with Inr Cons.prems have rec: "findIndex_from p xs (i + 1) = Inr k" by simp
      have rng: "i + 1 \<le> k" using findIndex_from_range[OF rec] Cons.prems by auto
      have IH: "p (xs ! nat (k - (i + 1))) = Inr True \<and> (\<forall>j < nat (k - (i + 1)). p (xs ! j) = Inr False)"
        using Cons.IH[OF rec] Cons.prems by simp
      have k: "nat (k - i) = Suc (nat (k - (i + 1)))" using rng by simp
      show ?thesis unfolding k using IH Inr False by (auto simp: less_Suc_eq_0_disj)
    qed
  qed
qed

lemma resolveIndex_lookup:
  "\<not> is_number a \<Longrightarrow> resolveIndex opts a =
      (case opts of None \<Rightarrow> Inl TypeError | Some os \<Rightarrow> findIndex (option_matches a) os)"
  by (cases a; cases opts) (simp_all add: resolveIndex_def)

text \<open>
  Claim C4. For a single-choice question whose \<open>correctAnswers\<close> has exactly one entry
  that resolves to an index \<open>k\<close>, the validator answers true exactly for the chosen
  index \<open>k\<close> and false for every other index. The resolved index is the entry itself
  when it is a number; otherwise it is the position of the first option that is the
  entry as a string, or whose text or value is the entry (\<open>-1\<close> when there is none).
\<close>

theorem validateSingleChoice_resolved_index:
  assumes "q_correctAnswers q = Some [a]"
    and "resolveIndex (q_options q) a = Inr k"
  shows "validateSingleChoice q userAnswer = Inr (userAnswer = k) \<and>
         (\<forall>n. a = JNum n \<longrightarrow> k = n) \<and>
         (\<not> is_number a \<longrightarrow>
            (\<exists>os. q_options q = Some os \<and>
               (if k = - 1 then \<forall>opt \<in> set os. option_matches a opt = Inr False
                else 0 \<le> k \<and> nat k < length os \<and> option_matches a (os ! nat k) = Inr True \<and>
                     (\<forall>j < nat k. option_matches a (os ! j) = Inr False))))"
proof (cases "is_number a")
  case True
  then obtain n where "a = JNum n" by (cases a) simp_all
  with assms show ?thesis by (simp add: validateSingleChoice_def resolveIndex_def)
next
  case nn: False
  then have res: "resolveIndex (q_options q) a =
      (case q_options q of None \<Rightarrow> Inl TypeError | Some os \<Rightarrow> findIndex (option_matches a) os)"
    by (rule resolveIndex_lookup)
  from assms(2) obtain os where os: "q_options q = Some os"
    and fi: "findIndex_from (option_matches a) os 0 = Inr k"
    unfolding res by (cases "q_options q") (auto simp: findIndex_def)
  have v: "validateSingleChoice q userAnswer = Inr (userAnswer = k)"
    using assms(1) nn os fi by (simp add: validateSingleChoice_def findIndex_def)
  have r: "k = - 1 \<or> (0 \<le> k \<and> k < int (length os))"
    using findIndex_from_range[OF fi] by simp
  have none: "k = - 1 \<Longrightarrow> \<forall>opt \<in> set os. option_matches a opt = Inr False"
    using findIndex_from_none[of "option_matches a" os 0] fi by simp
  have found: "k \<noteq> - 1 \<Longrightarrow> option_matches a (os ! nat k) = Inr True \<and>
      (\<forall>j < nat k. option_matches a (os ! j) = Inr False)"
    using findIndex_from_found[OF fi] by simp
  have notnum: "\<forall>n. a \<noteq> JNum n" using nn by auto
  show ?thesis
    using v nn os r none found notnum by auto
qed

theorem validateSingleChoice_resolved_index_witness:
  "validateSingleChoice sc_example 1 = Inr True \<and>
   validateSingleChoice sc_example 0 = Inr False \<and>
   validateSingleChoice sc_example 2 = Inr False \<and>
   option_matches (JStr ''B'') (OptObj (JStr ''Bee'') (JStr ''B'')) = Inr True \<and>
   option_matches (JStr ''B'') (OptStr ''A'') = Inr False"
proof -
  have ca: "q_correctAnswers sc_example = Some [JStr ''B'']" by (simp add: sc_example_def)
  have ri: "resolveIndex (q_options sc_example) (JStr ''B'') = Inr 1"
    by (simp add: sc_example_def resolveIndex_def findIndex_def)
  have os: "q_options sc_example = Some [OptStr ''A'', OptObj (JStr ''Bee'') (JStr ''B''), OptStr ''C'']"
    by (simp add: sc_example_def)
  show ?thesis
    using validateSingleChoice_resolved_index[OF ca ri, of 1]
      validateSingleChoice_resolved_index[OF ca ri, of 0]
      validateSingleChoice_resolved_index[OF ca ri, of 2] os
    by simp
qed

lemma prompt_checkbox_next:
  "inputs s = (d, Checkbox selected) # rest \<Longrightarrow> selected \<noteq> [] \<Longrightarrow>
     fst (prompt_checkbox s) = Returned selected"
  by (simp add: prompt_checkbox_def prompt_def Let_def)

text \<open>
  Claim C5. For a multiple-choice question whose \<open>correctAnswers\<close> resolve to the
  indices \<open>idxs\<close>, the validator answers true exactly when the delivered selection is
  the ascending-sorted \<open>idxs\<close>, element by element; and \<open>askMultipleChoice\<close> delivers
  the user's selection sorted ascending.
\<close>

theorem validateMultipleChoice_sorted_equality:
  assumes "q_correctAnswers q = Some cas"
    and "map_throwing (resolveIndex (q_options q)) cas = Inr idxs"
  shows "validateMultipleChoice q userAnswer = Inr (userAnswer = sort idxs) \<and>
         (choices q = Inr names \<longrightarrow> inputs s = (d, Checkbox selected) # rest \<longrightarrow> selected \<noteq> [] \<longrightarrow>
            fst (askMultipleChoice q s) = Returned (sort selected))"
proof -
  have "validateMultipleChoice q userAnswer = Inr (userAnswer = sort idxs)"
    using assms by (simp add: validateMultipleChoice_def JSON_stringify_inj)
  moreover have "fst (askMultipleChoice q s) = Returned (sort selected)"
    if "choices q = Inr names" "inputs s = (d, Checkbox selected) # rest" "selected \<noteq> []"
    using that prompt_checkbox_next[OF that(2,3)]
    by (cases "prompt_checkbox s") (simp add: askMultipleChoice_def)
  ultimately show ?thesis by blast
qed

theorem validateMultipleChoice_sorted_equality_witness:
  "validateMultipleChoice mc_example (sort [2, 0, 1]) = Inr True \<and>
   validateMultipleChoice mc_example (sort [0, 1]) = Inr False \<and>
   fst (askMultipleChoice mc_example (new_Quiz [mc_example] 0 False 0 [(5, Checkbox [2, 0, 1])]))
     = Returned [0, 1, 2]"
proof -
  have ca: "q_correctAnswers mc_example = Some [JNum 0, JStr ''C'', JNum 1]"
    by (simp add: mc_example_def)
  have ri: "map_throwing (resolveIndex (q_options mc_example)) [JNum 0, JStr ''C'', JNum 1] = Inr [0, 2, 1]"
    by (simp add: mc_example_def resolveIndex_def findIndex_def)
  have ch: "choices mc_example = Inr [JStr ''A'', JStr ''B'', JStr ''C'', JStr ''D'']"
    by (simp add: mc_example_def choices_def)
  have inp: "inputs (new_Quiz [mc_example] 0 False 0 [(5, Checkbox [2, 0, 1])]) = (5, Checkbox [2, 0, 1]) # []"
    by (simp add: new_Quiz_def)
  show ?thesis
    using validateMultipleChoice_sorted_equality[OF ca ri, of "sort [2, 0, 1]"]
      validateMultipleChoice_sorted_equality[OF ca ri, of "sort [0, 1]"]
      validateMultipleChoice_sorted_equality[OF ca ri, of _ _ _ 5 "[2, 0, 1]" "[]"] ch inp
    by simp
qed

section \<open>The history store keeps the last fifty results\<close>

definition full_disk :: "nat disk" where
  "full_disk = \<lparr>dir_present = True, mkdir_error = None, results_file = Results [1..<52],
                 write_error = None, warnings = []\<rparr>"

definition readonly_disk :: "nat disk" where
  "readonly_disk = \<lparr>dir_present = True, mkdir_error = None, results_file = BadJson,
                     write_error = Some ''EACCES'', warnings = []\<rparr>"

lemma ensureResultsDir_file:
  "ensureResultsDir d = (r, d') \<Longrightarrow>
     results_file d' = results_file d \<and> write_error d' = write_error d \<and>
     mkdir_error d' = mkdir_error d \<and>
     (r = Inr () \<longrightarrow> dir_present d') \<and> (dir_present d \<or> mkdir_error d = None \<longrightarrow> r = Inr ())"
  by (auto simp: ensureResultsDir_def split: if_splits option.splits)

lemma loadResults_file:
  "loadResults d = (p, d') \<Longrightarrow>
     results_file d' = results_file d \<and> write_error d' = write_error d \<and>
     mkdir_error d' = mkdir_error d \<and> (dir_present d \<or> mkdir_error d = None \<longrightarrow> dir_present d') \<and>
     (dir_present d \<or> mkdir_error d = None \<longrightarrow> results_file d = Results rs \<longrightarrow> p = Arr rs)"
  by (auto simp: loadResults_def loadResults_catch_def ensureResultsDir_def
      split: if_splits option.splits prod.splits sum.splits file_content.splits)

lemma saveResult_try_file:
  assumes "saveResult_try d r = (x, d')"
  shows "(x = Inr () \<longrightarrow> (\<exists>rs. results_file d' = Results (drop (length rs + 1 - 50) (rs @ [r])))) \<and>
         (x \<noteq> Inr () \<longrightarrow> results_file d' = results_file d)"
proof -
  obtain p d1 where l: "loadResults d = (p, d1)" by (cases "loadResults d")
  note l1 = loadResults_file[OF l]
  show ?thesis
  proof (cases p)
    case NonArr
    with assms l l1 show ?thesis by (auto simp: saveResult_try_def)
  next
    case (Arr rs)
    obtain e d2 where e: "ensureResultsDir d1 = (e, d2)" by (cases "ensureResultsDir d1")
    note e1 = ensureResultsDir_file[OF e]
    show ?thesis
    proof (cases "e = Inr () \<and> write_error d2 = None")
      case True
      with assms l Arr e have "x = Inr ()"
        and "results_file d' = Results (if length (rs @ [r]) > 50
               then drop (length (rs @ [r]) - 50) (rs @ [r]) else rs @ [r])"
        by (auto simp: saveResult_try_def Let_def)
      then show ?thesis by (auto intro!: exI[of _ rs])
    next
      case False
      with assms l Arr e l1 e1 show ?thesis
        by (cases e) (auto simp: saveResult_try_def Let_def split: option.splits)
    qed
  qed
qed

lemma saveResult_try_written:
  assumes "results_file d = Results rs" "dir_present d \<or> mkdir_error d = None" "write_error d = None"
  shows "\<exists>d'. saveResult_try d r = (Inr (), d') \<and>
           results_file d' = Results (drop (length rs + 1 - 50) (rs @ [r]))"
proof -
  obtain p d1 where l: "loadResults d = (p, d1)" by (cases "loadResults d")
  have l1: "p = Arr rs" "dir_present d1" "write_error d1 = None"
    using loadResults_file[OF l, of rs] assms by auto
  then have e: "ensureResultsDir d1 = (Inr (), d1)" by (simp add: ensureResultsDir_def)
  show ?thesis using l l1 e by (auto simp: saveResult_try_def Let_def)
qed

text \<open>
  Claim C9. \<open>saveResult\<close> never raises to its caller, whatever fails underneath. After
  a call the results file is as it was (nothing could be written) or holds the loaded
  results followed by the new one, cut down from the front to the last fifty: so a store
  of at most 50 results stays one, and when the file is read and written without error
  it holds exactly the newest \<open>min 50 (n + 1)\<close> results in insertion order.
\<close>

theorem saveResult_keeps_last_50:
  "fst (saveResult d r) = Inr () \<and>
   (results_file (snd (saveResult d r)) = results_file d \<or>
      (\<exists>rs. results_file (snd (saveResult d r)) = Results (drop (length rs + 1 - 50) (rs @ [r])))) \<and>
   (length (stored d) \<le> 50 \<longrightarrow> length (stored (snd (saveResult d r))) \<le> 50) \<and>
   (results_file d = Results rs \<longrightarrow> (dir_present d \<or> mkdir_error d = None) \<longrightarrow>
      write_error d = None \<longrightarrow>
        stored (snd (saveResult d r)) = drop (length rs + 1 - 50) (rs @ [r]) \<and>
        length (stored (snd (saveResult d r))) = min 50 (length rs + 1))"
proof -
  obtain x d1 where t: "saveResult_try d r = (x, d1)" by (cases "saveResult_try d r")
  note f = saveResult_try_file[OF t]
  have never: "fst (saveResult d r) = Inr ()"
    using t by (cases x) (simp_all add: saveResult_def)
  have same: "results_file (snd (saveResult d r)) = results_file d1"
    using t by (cases x) (simp_all add: saveResult_def)
  have alt: "results_file d1 = results_file d \<or>
      (\<exists>rs. results_file d1 = Results (drop (length rs + 1 - 50) (rs @ [r])))"
    using f by (cases "x = Inr ()") auto
  have bound: "length (stored (snd (saveResult d r))) \<le> 50" if "length (stored d) \<le> 50"
    using alt that unfolding stored_def same by auto
  have written: "stored (snd (saveResult d r)) = drop (length rs + 1 - 50) (rs @ [r]) \<and>
        length (stored (snd (saveResult d r))) = min 50 (length rs + 1)"
    if "results_file d = Results rs" "dir_present d \<or> mkdir_error d = None" "write_error d = None"
    using saveResult_try_written[OF that, of r] t unfolding stored_def same by auto
  show ?thesis using never alt bound written unfolding same by blast
qed

theorem saveResult_keeps_last_50_witness:
  "stored (snd (saveResult full_disk 52)) = [3..<52] @ [52] \<and>
   length (stored (snd (saveResult full_disk 52))) = 50 \<and>
   fst (saveResult readonly_disk 7) = Inr () \<and>
   length (stored (snd (saveResult readonly_disk 7))) \<le> 50"
proof -
  have 1: "results_file full_disk = Results [1..<52]" "dir_present full_disk \<or> mkdir_error full_disk = None"
    "write_error full_disk = None"
    by (simp_all add: full_disk_def)
  have 2: "length (stored readonly_disk) \<le> 50" by (simp add: readonly_disk_def stored_def)
  have 3: "drop 2 ([1..<52] @ [52::nat]) = [3..<52] @ [52]" by code_simp
  show ?thesis
    using saveResult_keeps_last_50[of full_disk 52 "[1..<52]"]
      saveResult_keeps_last_50[of readonly_disk 7] 1 2 3
    by simp
qed

section \<open>The invariant across a session\<close>

lemma advanced_runQuestions:
  "runQuestions i s = (r, s') \<Longrightarrow> advanced s s'"
proof (induction i s arbitrary: r s' rule: runQuestions.induct)
  case (1 i s)
  show ?case
  proof (cases "i < length (questions s)")
    case False
    with "1.prems" show ?thesis by (subst (asm) runQuestions.simps) simp
  next
    case True
    let ?s1 = "s\<lparr>currentQuestionIndex := i\<rparr>"
    let ?s2 = "emit (QuestionHeader (i + 1) (length (questions ?s1))) ?s1"
    have a2: "advanced s ?s2"
      by (simp add: advanced_def observes_def sound_def saved_def)
    obtain a s3 where a: "askQuestion (questions ?s1 ! i) ?s2 = (a, s3)"
      by (cases "askQuestion (questions ?s1 ! i) ?s2")
    have a3: "advanced ?s2 s3" using advanced_askQuestion[OF a] .
    show ?thesis
    proof (cases a)
      case (Returned u)
      have run: "runQuestions (i + 1) s3 = (r, s')"
        using "1.prems" True a Returned
        by (subst (asm) runQuestions.simps) (simp add: Let_def)
      have "advanced s3 s'"
        using "1.IH"[OF True refl refl refl a[symmetric] Returned run] .
      with a2 a3 show ?thesis using advanced_trans by blast
    next
      case (Thrown e)
      then have "s' = s3" using "1.prems" True a
        by (subst (asm) runQuestions.simps) (simp add: Let_def)
      with a2 a3 show ?thesis using advanced_trans by blast
    next
      case Pending
      then have "s' = s3" using "1.prems" True a
        by (subst (asm) runQuestions.simps) (simp add: Let_def)
      with a2 a3 show ?thesis using advanced_trans by blast
    qed
  qed
qed


lemma start_cases [consumes 1, case_names confirm_thrown confirm_pending cancelled completed failed stuck]:
  assumes "start s = (r, s')"
  obtains
    e where "prompt_confirm s = (Thrown e, s')" "r = Thrown e"
  | "prompt_confirm s = (Pending, s')" "r = Pending"
  | s1 where "prompt_confirm s = (Returned False, s1)" "r = Returned ()" "s' = emit Cancelled s1"
  | s1 timeoutId s2 s3 where "prompt_confirm s = (Returned True, s1)"
      "begin_session s1 = (timeoutId, s2)" "runQuestions 0 s2 = (Returned (), s3)"
      "r = Returned ()" "s' = finishQuiz (clearTimeout timeoutId s3)"
  | s1 timeoutId s2 s3 e where "prompt_confirm s = (Returned True, s1)"
      "begin_session s1 = (timeoutId, s2)" "runQuestions 0 s2 = (Thrown e, s3)"
      "r = Returned ()" "s' = emit (QuizError e) (clearTimeout timeoutId s3)"
  | s1 timeoutId s2 where "prompt_confirm s = (Returned True, s1)"
      "begin_session s1 = (timeoutId, s2)" "runQuestions 0 s2 = (Pending, s')" "r = Pending"
proof -
  obtain c s1 where c: "prompt_confirm s = (c, s1)" by (cases "prompt_confirm s")
  show ?thesis
  proof (cases c)
    case (Thrown e)
    with c assms that(1) show ?thesis by (simp add: start_def)
  next
    case Pending
    with c assms that(2) show ?thesis by (simp add: start_def)
  next
    case (Returned confirmStart)
    show ?thesis
    proof (cases confirmStart)
      case False
      with c Returned assms that(3)[of s1] show ?thesis by (simp add: start_def)
    next
      case True
      obtain timeoutId s2 where b: "begin_session s1 = (timeoutId, s2)" by (cases "begin_session s1")
      obtain x s3 where x: "runQuestions 0 s2 = (x, s3)" by (cases "runQuestions 0 s2")
      have st: "start s = (case x of Returned u \<Rightarrow> (Returned (), finishQuiz (clearTimeout timeoutId s3))
                  | Thrown e \<Rightarrow> (Returned (), emit (QuizError e) (clearTimeout timeoutId s3))
                  | Pending \<Rightarrow> (Pending, s3))"
        using c Returned True b x by (simp add: start_def)
      have c': "prompt_confirm s = (Returned True, s1)" using c Returned True by simp
      show ?thesis
      proof (cases x)
        case (Returned u)
        then have "r = Returned ()" "s' = finishQuiz (clearTimeout timeoutId s3)"
          using st assms by simp_all
        moreover have "runQuestions 0 s2 = (Returned (), s3)" using x Returned by simp
        ultimately show ?thesis using that(4)[OF c' b] by blast
      next
        case (Thrown e)
        then have "r = Returned ()" "s' = emit (QuizError e) (clearTimeout timeoutId s3)"
          using st assms by simp_all
        moreover have "runQuestions 0 s2 = (Thrown e, s3)" using x Thrown by simp
        ultimately show ?thesis using that(5)[OF c' b] by blast
      next
        case Pending
        then have "r = Pending" "s' = s3"
          using st assms by simp_all
        moreover have "runQuestions 0 s2 = (Pending, s3)" using x Pending by simp
        ultimately show ?thesis using that(6)[OF c' b] by blast
      qed
    qed
  qed
qed

lemma begin_session_fields:
  "begin_session s = (timeoutId, s') \<Longrightarrow>
     questions s' = questions s \<and> timeLimit s' = timeLimit s \<and> allowRetry s' = allowRetry s \<and>
     answers s' = answers s \<and> score s' = score s \<and> events s' = events s \<and>
     inputs s' = inputs s \<and> clock s' = clock s \<and> startTime s' = Some (clock s) \<and>
     timer s' = (if 0 < timeLimit s then Some (clock s + timeLimit s) else timer s) \<and>
     timeoutId = (if 0 < timeLimit s then Some (clock s + timeLimit s) else None)"
  by (auto simp: begin_session_def Let_def split: if_splits)

lemma sound_fields:
  "score s' = score s \<Longrightarrow> answers s' = answers s \<Longrightarrow> events s' = events s \<Longrightarrow>
   questions s' = questions s \<Longrightarrow> sound s \<Longrightarrow> sound s'"
  by (simp add: sound_def saved_def)

lemma clearTimeout_fields [simp]:
  "questions (clearTimeout t s) = questions s" "answers (clearTimeout t s) = answers s"
  "score (clearTimeout t s) = score s" "events (clearTimeout t s) = events s"
  "inputs (clearTimeout t s) = inputs s" "startTime (clearTimeout t s) = startTime s"
  "clock (clearTimeout t s) = clock s"
  by (simp_all add: clearTimeout_def split: option.splits)

lemma sound_start:
  assumes "start s = (r, s')" "sound s"
  shows "sound s' \<and> questions s' = questions s"
  using assms(1)
proof (cases rule: start_cases)
  case (confirm_thrown e)
  then show ?thesis using undisturbed_prompts(1) assms(2) by (auto simp: undisturbed_def advanced_def)
next
  case confirm_pending
  then show ?thesis using undisturbed_prompts(1) assms(2) by (auto simp: undisturbed_def advanced_def)
next
  case (cancelled s1)
  have "advanced s s1" using undisturbed_prompts(1)[OF cancelled(1)] undisturbed_advanced by blast
  then have "sound s1" "questions s1 = questions s" using assms(2) by (simp_all add: advanced_def)
  then show ?thesis unfolding cancelled(3) by (simp add: sound_def saved_def)
next
  case (completed s1 timeoutId s2 s3)
  have "advanced s s1" using undisturbed_prompts(1)[OF completed(1)] undisturbed_advanced by blast
  then have 1: "sound s1" "questions s1 = questions s" using assms(2) by (simp_all add: advanced_def)
  have 2: "sound s2" "questions s2 = questions s"
    using begin_session_fields[OF completed(2)] 1 sound_fields[of s2 s1] by simp_all
  have 3: "sound s3" "questions s3 = questions s"
    using advanced_runQuestions[OF completed(3)] 2 by (simp_all add: advanced_def)
  have "sound (clearTimeout timeoutId s3)" using 3 sound_fields[of "clearTimeout timeoutId s3" s3] by simp
  then show ?thesis unfolding completed(5) using sound_finishQuiz 3 by simp
next
  case (failed s1 timeoutId s2 s3 e)
  have "advanced s s1" using undisturbed_prompts(1)[OF failed(1)] undisturbed_advanced by blast
  then have 1: "sound s1" "questions s1 = questions s" using assms(2) by (simp_all add: advanced_def)
  have 2: "sound s2" "questions s2 = questions s"
    using begin_session_fields[OF failed(2)] 1 sound_fields[of s2 s1] by simp_all
  have 3: "sound s3" "questions s3 = questions s"
    using advanced_runQuestions[OF failed(3)] 2 by (simp_all add: advanced_def)
  show ?thesis unfolding failed(5) using 3 by (simp add: sound_def saved_def)
next
  case (stuck s1 timeoutId s2)
  have "advanced s s1" using undisturbed_prompts(1)[OF stuck(1)] undisturbed_advanced by blast
  then have 1: "sound s1" "questions s1 = questions s" using assms(2) by (simp_all add: advanced_def)
  have 2: "sound s2" "questions s2 = questions s"
    using begin_session_fields[OF stuck(2)] 1 sound_fields[of s2 s1] by simp_all
  show ?thesis
    using advanced_runQuestions[OF stuck(3)] 2 by (simp_all add: advanced_def)
qed

lemma sound_new_Quiz: "sound (new_Quiz qs limit retry now ins)"
  by (simp add: sound_def new_Quiz_def saved_def correct_count_def)

section \<open>The rounding error of the percentage\<close>

lemma bit_length_bounds:
  "0 < n \<Longrightarrow> 2 ^ (bit_length n - 1) \<le> n \<and> n < 2 ^ bit_length n"
proof (induction n rule: bit_length.induct)
  case (1 n)
  show ?case
  proof (cases "n = 1")
    case True
    then show ?thesis by (simp add: bit_length.simps[of 1] bit_length.simps[of 0])
  next
    case False
    with "1.prems" have h: "0 < n div 2" by simp
    have bl: "bit_length n = Suc (bit_length (n div 2))"
      using "1.prems" by (subst bit_length.simps) simp
    have pos: "0 < bit_length (n div 2)" using h by (subst bit_length.simps) simp
    from "1.IH" "1.prems" h
    have IH: "2 ^ (bit_length (n div 2) - 1) \<le> n div 2" "n div 2 < 2 ^ bit_length (n div 2)"
      by simp_all
    have "2 ^ (bit_length n - 1) = 2 * 2 ^ (bit_length (n div 2) - 1)"
      using bl pos by (cases "bit_length (n div 2)") simp_all
    also have "\<dots> \<le> 2 * (n div 2)" using IH(1) by simp
    also have "\<dots> \<le> n" by simp
    finally have lo: "(2::int) ^ (bit_length n - 1) \<le> n" .
    have "n < 2 * (n div 2) + 2" by simp
    also have "\<dots> \<le> 2 * 2 ^ bit_length (n div 2)" using IH(2) by simp
    finally have "n < 2 ^ bit_length n" using bl by simp
    with lo show ?thesis by simp
  qed
qed

lemma pow2_pos: "0 < pow2 e"
  by (simp add: pow2_def)

lemma pow2_add: "pow2 (a + b) = pow2 a * pow2 b"
proof -
  have p: "pow2 e = 2 powi e" for e
    by (simp add: pow2_def power_int_def field_simps)
  show ?thesis unfolding p by (simp add: power_int_add)
qed

lemma pow2_nat: "pow2 (int k) = 2 ^ k"
  by (simp add: pow2_def)

lemma pow2_diff: "pow2 (a - b) = pow2 a / pow2 b"
proof -
  have "pow2 a = pow2 (a - b) * pow2 b" using pow2_add[of "a - b" b] by simp
  then show ?thesis using pow2_pos[of b] by (simp add: field_simps)
qed

lemma exponent_of_le:
  assumes "0 < x"
  shows "pow2 (exponent_of x) \<le> x"
proof -
  obtain p q where pq: "quotient_of x = (p, q)" by (cases "quotient_of x")
  have q: "0 < q" using quotient_of_denom_pos[OF pq] .
  have x: "x = of_int p / of_int q" using quotient_of_div[OF pq] .
  have p: "0 < p" using assms q unfolding x by (simp add: zero_less_divide_iff)
  let ?e0 = "int (bit_length p) - int (bit_length q)"
  have e: "exponent_of x = (if pow2 ?e0 \<le> x then ?e0 else ?e0 - 1)"
    by (simp add: exponent_of_def pq Let_def)
  show ?thesis
  proof (cases "pow2 ?e0 \<le> x")
    case True
    then show ?thesis using e by simp
  next
    case False
    have blp: "0 < bit_length p" using p by (subst bit_length.simps) simp
    have lo: "(2::rat) ^ (bit_length p - 1) \<le> of_int p"
    proof -
      have "(2::int) ^ (bit_length p - 1) \<le> p" using bit_length_bounds[OF p] by simp
      then have "of_int ((2::int) ^ (bit_length p - 1)) \<le> (of_int p :: rat)"
        by (simp only: of_int_le_iff)
      then show ?thesis by simp
    qed
    have hi: "of_int q \<le> (2::rat) ^ bit_length q"
    proof -
      have "q \<le> (2::int) ^ bit_length q" using bit_length_bounds[OF q] by simp
      then have "(of_int q :: rat) \<le> of_int ((2::int) ^ bit_length q)"
        by (simp only: of_int_le_iff)
      then show ?thesis by simp
    qed
    have "pow2 (?e0 - 1) = pow2 (int (bit_length p - 1)) / pow2 (int (bit_length q))"
      using blp pow2_diff[of "int (bit_length p - 1)" "int (bit_length q)"]
      by (simp add: of_nat_diff algebra_simps)
    also have "\<dots> = 2 ^ (bit_length p - 1) / 2 ^ bit_length q" by (simp only: pow2_nat)
    also have "\<dots> \<le> of_int p / 2 ^ bit_length q" using lo by (simp add: divide_right_mono)
    also have "\<dots> \<le> of_int p / of_int q"
      using hi p q by (simp add: divide_left_mono)
    finally show ?thesis using e False x by simp
  qed
qed

lemma round_half_even_close: "\<bar>of_int (round_half_even m) - m\<bar> \<le> 1 / 2"
proof -
  have f: "of_int \<lfloor>m\<rfloor> \<le> m" "m < of_int \<lfloor>m\<rfloor> + 1" by linarith+
  show ?thesis
    unfolding round_half_even_def Let_def using f by (auto simp: abs_le_iff)
qed

lemma fl_error:
  assumes "0 < x"
  shows "\<bar>fl x - x\<bar> \<le> x / 2 ^ 53"
proof -
  let ?e = "exponent_of x"
  let ?q = "pow2 (?e - 52)"
  have qpos: "0 < ?q" by (rule pow2_pos)
  have fl: "fl x = of_int (round_half_even (x / ?q)) * ?q"
    using assms by (simp add: fl_def Let_def)
  have "fl x - x = (of_int (round_half_even (x / ?q)) - x / ?q) * ?q"
    unfolding fl using qpos by (simp add: field_simps)
  then have "\<bar>fl x - x\<bar> = \<bar>of_int (round_half_even (x / ?q)) - x / ?q\<bar> * ?q"
    using qpos by (simp only: abs_mult abs_of_pos)
  also have "\<dots> \<le> (1 / 2) * ?q"
    using round_half_even_close[of "x / ?q"] qpos by (simp add: mult_right_mono)
  also have "\<dots> = pow2 ?e / 2 ^ 53"
    using pow2_diff[of ?e 52] by (simp add: pow2_def)
  also have "\<dots> \<le> x / 2 ^ 53" using exponent_of_le[OF assms] by (simp add: divide_right_mono)
  finally show ?thesis .
qed


lemma scaled_triangle:
  fixes a b c :: rat
  shows "\<bar>a - 100 * c\<bar> \<le> \<bar>a - b * 100\<bar> + 100 * \<bar>b - c\<bar>"
proof -
  have eq: "a - 100 * c = (a - b * 100) + 100 * (b - c)" by (simp add: algebra_simps)
  have m: "\<bar>100 * (b - c)\<bar> = 100 * \<bar>b - c\<bar>"
    using abs_mult[of 100 "b - c"] by (simp only: abs_numeral)
  have "\<bar>(a - b * 100) + 100 * (b - c)\<bar> \<le> \<bar>a - b * 100\<bar> + \<bar>100 * (b - c)\<bar>"
    by (rule abs_triangle_ineq)
  then show ?thesis unfolding m eq[symmetric] .
qed

lemma floor_half: "\<lfloor>1 / 2 :: rat\<rfloor> = 0"
  by (simp add: floor_eq_iff)

lemma percentage_error:
  assumes sc: "0 < sc" "sc \<le> n"
  shows "\<exists>y. js_times (js_div sc n) 100 = Num y \<and>
           \<bar>y - 100 * of_nat sc / of_nat n\<bar> \<le> 300 / 2 ^ 53"
proof -
  define x :: rat where "x = of_nat sc / of_nat n"
  define u :: rat where "u = 1 / 2 ^ 53"
  define y1 where "y1 = fl x"
  define y2 where "y2 = fl (y1 * 100)"
  have n: "0 < n" using sc by simp
  have x: "0 < x" "x \<le> 1" using sc by (simp_all add: x_def)
  have u: "0 < u" "u < 1" by (simp_all add: u_def)
  have e1: "\<bar>y1 - x\<bar> \<le> x * u" using fl_error[OF x(1)] by (simp add: y1_def u_def)
  have xu: "x * u \<le> u" using x u by (simp add: mult_le_cancel_right1)
  have xu': "x * u < x" using x u by simp
  have e1s: "y1 - x \<le> x * u" "x - y1 \<le> x * u" using e1 by (simp_all add: abs_le_iff)
  have y1: "0 < y1" "y1 \<le> 2" using e1s xu xu' x u by linarith+
  have "0 < y1 * 100" using y1(1) by simp
  from fl_error[OF this] have e2: "\<bar>y2 - y1 * 100\<bar> \<le> y1 * 100 * u"
    by (simp add: y2_def u_def)
  have "y1 * 100 \<le> 200" using y1(2) by simp
  then have "y1 * 100 * u \<le> 200 * u" by (rule mult_right_mono) (use u in simp)
  with e2 have e2': "\<bar>y2 - y1 * 100\<bar> \<le> 200 * u" by (rule order_trans)
  have e1': "\<bar>y1 - x\<bar> \<le> u" using e1 xu by simp
  have "\<bar>y2 - 100 * x\<bar> \<le> \<bar>y2 - y1 * 100\<bar> + 100 * \<bar>y1 - x\<bar>" by (rule scaled_triangle)
  also have "\<dots> \<le> 200 * u + 100 * u"
    using e2' e1' by (intro add_mono mult_left_mono) simp_all
  also have "\<dots> = 300 / 2 ^ 53" by (simp add: u_def)
  finally have "\<bar>y2 - 100 * of_nat sc / of_nat n\<bar> \<le> 300 / 2 ^ 53" by (simp add: x_def)
  moreover have "js_times (js_div sc n) 100 = Num y2"
    using n by (simp add: js_div_def y2_def y1_def x_def)
  ultimately show ?thesis by blast
qed

lemma percentage_nearest:
  assumes "0 < n" "sc \<le> n" "n < 2 ^ 40"
  shows "\<exists>p. percentage_of sc n = Num (of_int p) \<and>
           \<bar>of_int p - 100 * of_nat sc / of_nat n\<bar> \<le> (1 / 2 :: rat)"
proof (cases "sc = 0")
  case True
  have "percentage_of 0 n = Num (of_int 0)"
    using assms(1) by (simp add: percentage_of_def js_div_def fl_def floor_half)
  with True show ?thesis by (intro exI[of _ 0]) simp
next
  case False
  then have sc: "0 < sc" by simp
  let ?N = "of_nat n :: rat"
  let ?X = "100 * of_nat sc / ?N"
  obtain y where y: "js_times (js_div sc n) 100 = Num y" and err: "\<bar>y - ?X\<bar> \<le> 300 / 2 ^ 53"
    using percentage_error[OF sc assms(2)] by blast
  let ?p = "\<lfloor>y + 1 / 2\<rfloor>"
  have pct: "percentage_of sc n = Num (of_int ?p)" by (simp add: percentage_of_def y)
  have N: "0 < ?N" "?N < 2 ^ 40"
  proof -
    show "0 < ?N" using assms(1) by simp
    have "of_nat n < (of_nat (2 ^ 40) :: rat)" using assms(3) by (simp only: of_nat_less_iff)
    then show "?N < 2 ^ 40" by simp
  qed
  define eps :: rat where "eps = 300 / 2 ^ 53"
  define gap :: rat where "gap = 1 / (2 * ?N)"
  have small: "300 / 2 ^ 53 < 1 / (2 * ?N)"
  proof -
    have "(300 :: rat) / 2 ^ 53 < 1 / 2 ^ 41" by simp
    also have "\<dots> \<le> 1 / (2 * ?N)" using N by (simp add: field_simps)
    finally show ?thesis .
  qed
  have "y - ?X \<le> eps \<and> - (y - ?X) \<le> eps"
    using err unfolding eps_def by (simp only: abs_le_iff)
  then have close: "y - ?X \<le> eps" "?X - y \<le> eps" by (simp_all only: minus_diff_eq)
  have gap: "eps < gap" using small unfolding eps_def gap_def .
  have fl: "of_int ?p \<le> y + 1 / 2" "y + 1 / 2 < of_int ?p + 1" by linarith+
  have XN: "?X * (2 * ?N) = of_int (200 * int sc)" using N(1) by simp
  have scale: "a < b \<Longrightarrow> a * (2 * ?N) < b * (2 * ?N)" for a b :: rat
    using N(1) by (simp add: mult_strict_right_mono)
  have unscale: "a * (2 * ?N) + 1 \<le> b * (2 * ?N) \<Longrightarrow> a + 1 / (2 * ?N) \<le> b" for a b :: rat
  proof -
    assume "a * (2 * ?N) + 1 \<le> b * (2 * ?N)"
    then have "(a + 1 / (2 * ?N)) * (2 * ?N) \<le> b * (2 * ?N)"
      using N(1) by (simp add: algebra_simps)
    then show "a + 1 / (2 * ?N) \<le> b"
      by (rule mult_right_le_imp_le) (use N(1) in simp)
  qed
  have half: "(of_int k + 1 / 2) * (2 * ?N) = of_int ((2 * k + 1) * int n)"
    "(of_int k - 1 / 2) * (2 * ?N) = of_int ((2 * k - 1) * int n)" for k :: int
    by (simp_all add: algebra_simps)
  have upper: "?X \<le> of_int ?p + 1 / 2"
  proof (rule ccontr)
    assume "\<not> ?X \<le> of_int ?p + 1 / 2"
    then have "of_int ?p + 1 / 2 < ?X" by simp
    from scale[OF this] have "(of_int ((2 * ?p + 1) * int n) :: rat) < of_int (200 * int sc)"
      unfolding XN half .
    then have "(2 * ?p + 1) * int n < 200 * int sc" by (simp only: of_int_less_iff)
    then have "(2 * ?p + 1) * int n + 1 \<le> 200 * int sc" by simp
    then have "(of_int ((2 * ?p + 1) * int n + 1) :: rat) \<le> of_int (200 * int sc)"
      by (simp only: of_int_le_iff)
    then have "(of_int ?p + 1 / 2) * (2 * ?N) + 1 \<le> ?X * (2 * ?N)"
      unfolding XN half by simp
    from unscale[OF this] have "of_int ?p + 1 / 2 + gap \<le> ?X" unfolding gap_def .
    with fl(2) close gap show False by linarith
  qed
  have lower: "of_int ?p - 1 / 2 \<le> ?X"
  proof (rule ccontr)
    assume "\<not> of_int ?p - 1 / 2 \<le> ?X"
    then have "?X < of_int ?p - 1 / 2" by simp
    from scale[OF this] have "(of_int (200 * int sc) :: rat) < of_int ((2 * ?p - 1) * int n)"
      unfolding XN half .
    then have "200 * int sc < (2 * ?p - 1) * int n" by (simp only: of_int_less_iff)
    then have "200 * int sc + 1 \<le> (2 * ?p - 1) * int n" by simp
    then have "(of_int (200 * int sc + 1) :: rat) \<le> of_int ((2 * ?p - 1) * int n)"
      by (simp only: of_int_le_iff)
    then have "?X * (2 * ?N) + 1 \<le> (of_int ?p - 1 / 2) * (2 * ?N)"
      unfolding XN half by simp
    from unscale[OF this] have "?X + gap \<le> of_int ?p - 1 / 2" unfolding gap_def .
    with fl(1) close gap show False by linarith
  qed
  have "\<bar>of_int ?p - ?X\<bar> \<le> 1 / 2" using upper lower by (simp only: abs_le_iff) linarith
  with pct show ?thesis by blast
qed

text \<open>
  Where the exact value is half-way between two integers the result need not be the
  upper one: 23 out of 40 is 57.5, the product computed on doubles is just below it.
\<close>

lemma percentage_below_exact_tie: "percentage_of 23 40 = Num 57"
  by code_simp

section \<open>Score, answers and percentage of a result\<close>

text \<open>
  A session with retries: a wrong choice, a retry, then the right choice.
\<close>

definition retry_session :: quiz where
  "retry_session =
     new_Quiz [sc_example] 0 True 0
       [(0, Confirm True), (5, ListChoice 0), (1, Confirm True), (5, ListChoice 1)]"

text \<open>
  Three questions and a limit of one second; the first answer takes two seconds.
\<close>

definition late_session :: quiz where
  "late_session =
     new_Quiz [sc_example, mc_example, sc_example\<lparr>q_id := ''sc2''\<rparr>] 1000 False 0
       [(0, Confirm True), (2000, ListChoice 1), (10, Checkbox [0, 1]), (10, ListChoice 1)]"

lemma list_all_result_ok:
  "list_all (result_ok n) rs \<Longrightarrow>
     list_all (\<lambda>res. sr_correctAnswers res = correct_count (sr_answers res)) rs \<and>
     list_all (\<lambda>res. sr_totalQuestions res = n \<and>
                      sr_percentage res = percentage_of (sr_correctAnswers res) n) rs"
  by (induction rs) (auto simp: result_ok_def)

lemma sound_askQuestion:
  "askQuestion q s = (x, s1) \<Longrightarrow> sound s \<Longrightarrow> sound s1 \<and> questions s1 = questions s"
  using advanced_askQuestion by (auto simp: advanced_def)

text \<open>
  Claim C10. The running score is the number of answer records marked correct, and the
  \<open>correctAnswers\<close> of every result handed to the history store is the number of
  correct records in that result's \<open>answers\<close>. This holds of a freshly constructed
  quiz, is kept by every question asked and by a whole session, whatever the timer does
  in between; a question that returns has added exactly one record and has raised the
  score by one exactly when that record is correct; and a pass of the retry loop that
  ends in a retry leaves answers and score as they were before it (the record it removed
  is the incorrect one it had added).
\<close>

theorem score_counts_correct_records:
  "(sound s \<longrightarrow> start s = (r, s') \<longrightarrow>
      score s' = correct_count (answers s') \<and>
      list_all (\<lambda>res. sr_correctAnswers res = correct_count (sr_answers res)) (saved s')) \<and>
   (sound s \<longrightarrow> askQuestion q s = (x, s1) \<longrightarrow>
      score s1 = correct_count (answers s1) \<and>
      list_all (\<lambda>res. sr_correctAnswers res = correct_count (sr_answers res)) (saved s1)) \<and>
   (askQuestion q s = (Returned (), s1) \<longrightarrow> one_more q s s1) \<and>
   (askQuestion_body q s = (Returned EndOfBody, s2) \<longrightarrow>
      answers s2 = answers s \<and> score s2 = score s) \<and>
   sound (new_Quiz qs limit retry now ins)"
proof -
  have 1: "score s' = correct_count (answers s') \<and>
      list_all (\<lambda>res. sr_correctAnswers res = correct_count (sr_answers res)) (saved s')"
    if "sound s" "start s = (r, s')"
    using sound_start[OF that(2,1)] list_all_result_ok[of "length (questions s')" "saved s'"]
    by (auto simp: sound_def)
  have 2: "score s1 = correct_count (answers s1) \<and>
      list_all (\<lambda>res. sr_correctAnswers res = correct_count (sr_answers res)) (saved s1)"
    if "sound s" "askQuestion q s = (x, s1)"
    using sound_askQuestion[OF that(2,1)] list_all_result_ok[of "length (questions s1)" "saved s1"]
    by (auto simp: sound_def)
  have 3: "one_more q s s1" if "askQuestion q s = (Returned (), s1)"
    using askQuestion_answers[OF that] by simp
  have 4: "answers s2 = answers s \<and> score s2 = score s"
    if "askQuestion_body q s = (Returned EndOfBody, s2)"
    using askQuestion_body_answers[OF that] by simp
  show ?thesis using 1 2 3 4 sound_new_Quiz by blast
qed

theorem score_counts_correct_records_witness:
  "score (snd (start retry_session)) = correct_count (answers (snd (start retry_session))) \<and>
   score (snd (start retry_session)) = 1 \<and>
   map ar_isCorrect (answers (snd (start retry_session))) = [True] \<and>
   map sr_correctAnswers (saved (snd (start late_session))) = [0, 2] \<and>
   map (\<lambda>res. map ar_isCorrect (sr_answers res)) (saved (snd (start late_session)))
     = [[], [True, False, True]]"
proof -
  have s: "sound retry_session" unfolding retry_session_def by (rule sound_new_Quiz)
  have "score (snd (start retry_session)) = correct_count (answers (snd (start retry_session)))"
    using score_counts_correct_records[of retry_session "fst (start retry_session)"
        "snd (start retry_session)"] s
    by simp
  moreover have "score (snd (start retry_session)) = 1" by code_simp
  moreover have "map ar_isCorrect (answers (snd (start retry_session))) = [True]" by code_simp
  moreover have "map sr_correctAnswers (saved (snd (start late_session))) = [0, 2]" by code_simp
  moreover have "map (\<lambda>res. map ar_isCorrect (sr_answers res)) (saved (snd (start late_session)))
     = [[], [True, False, True]]" by code_simp
  ultimately show ?thesis by blast
qed

lemma saved_finishQuiz:
  "saved (finishQuiz s) = saved s @
     [\<lparr>sr_timestamp = clock s, sr_totalQuestions = length (questions s),
       sr_correctAnswers = score s,
       sr_percentage = percentage_of (score s) (length (questions s)),
       sr_duration = int (clock s) - (case startTime s of None \<Rightarrow> 0 | Some t \<Rightarrow> int t),
       sr_answers = answers s\<rparr>]"
  by (simp add: finishQuiz_def Let_def saved_def emit_def)

text \<open>
  Claim C6. Every result that a session hands to the history store has
  \<open>totalQuestions\<close> equal to the configured number of questions and \<open>percentage\<close>
  equal to \<open>Math.round((score / questions.length) * 100)\<close> on that number, however
  many answers it holds; \<open>finishQuiz\<close> computes it from the score alone. Computed on
  doubles, it is an integer at distance at most one half from the exact
  \<open>100 * score / questions.length\<close> (for fewer than \<open>2^40\<close> questions; where the exact
  value lies half-way between two integers, the double arithmetic decides which one),
  and a score of 1 out of 3 gives 33.
\<close>

theorem percentage_of_configured_total:
  "(sound s \<longrightarrow> start s = (r, s') \<longrightarrow>
      list_all (\<lambda>res. sr_totalQuestions res = length (questions s) \<and>
                  sr_percentage res = percentage_of (sr_correctAnswers res) (length (questions s)))
        (saved s')) \<and>
   sr_percentage (last (saved (finishQuiz s))) = percentage_of (score s) (length (questions s)) \<and>
   (0 < n \<longrightarrow> sc \<le> n \<longrightarrow> n < 2 ^ 40 \<longrightarrow>
      (\<exists>p. percentage_of sc n = Num (of_int p) \<and>
           \<bar>of_int p - 100 * of_nat sc / of_nat n\<bar> \<le> (1 / 2 :: rat))) \<and>
   percentage_of 1 3 = Num 33"
proof -
  have 1: "list_all (\<lambda>res. sr_totalQuestions res = length (questions s) \<and>
                  sr_percentage res = percentage_of (sr_correctAnswers res) (length (questions s)))
        (saved s')"
    if "sound s" "start s = (r, s')"
    using sound_start[OF that(2,1)] list_all_result_ok[of "length (questions s')" "saved s'"]
    by (auto simp: sound_def)
  have 2: "sr_percentage (last (saved (finishQuiz s))) = percentage_of (score s) (length (questions s))"
    by (simp add: saved_finishQuiz)
  have 3: "percentage_of 1 3 = Num 33" by code_simp
  show ?thesis using 1 2 3 percentage_nearest by blast
qed

theorem percentage_of_configured_total_witness:
  "list_all (\<lambda>res. sr_totalQuestions res = 3 \<and>
               sr_percentage res = percentage_of (sr_correctAnswers res) 3)
     (saved (snd (start late_session))) \<and>
   map sr_percentage (saved (snd (start late_session))) = [Num 0, Num 67] \<and>
   map (\<lambda>res. length (sr_answers res)) (saved (snd (start late_session))) = [0, 3]"
proof -
  have s: "sound late_session" unfolding late_session_def by (rule sound_new_Quiz)
  have q: "length (questions late_session) = 3" by (simp add: late_session_def new_Quiz_def)
  have "list_all (\<lambda>res. sr_totalQuestions res = 3 \<and>
               sr_percentage res = percentage_of (sr_correctAnswers res) 3)
     (saved (snd (start late_session)))"
    using percentage_of_configured_total[of late_session "fst (start late_session)"
        "snd (start late_session)"] s q
    by simp
  moreover have "map sr_percentage (saved (snd (start late_session))) = [Num 0, Num 67]"
    by code_simp
  moreover have "map (\<lambda>res. length (sr_answers res)) (saved (snd (start late_session))) = [0, 3]"
    by code_simp
  ultimately show ?thesis by blast
qed

section \<open>Free-form answers\<close>










section \<open>One record for each question\<close>

text \<open>
  The end-to-end scenario of a declined retry: one multiple-choice question, retries
  allowed, the user selects only the first option and declines to try again.
\<close>

definition declined_session :: quiz where
  "declined_session =
     new_Quiz [mc_example] 0 True 0 [(0, Confirm True), (4, Checkbox [0]), (1, Confirm False)]"

lemma runQuestions_answers:
  "runQuestions i s = (r, s') \<Longrightarrow>
     \<exists>recs k. answers s' = answers s @ recs \<and>
       map ar_questionId recs = map q_id (take k (drop i (questions s))) \<and>
       (r = Returned () \<longrightarrow> map ar_questionId recs = map q_id (drop i (questions s)))"
proof (induction i s arbitrary: r s' rule: runQuestions.induct)
  case (1 i s)
  show ?case
  proof (cases "i < length (questions s)")
    case False
    with "1.prems" have "s' = s" by (subst (asm) runQuestions.simps) simp
    with False show ?thesis by simp
  next
    case True
    let ?s1 = "s\<lparr>currentQuestionIndex := i\<rparr>"
    let ?s2 = "emit (QuestionHeader (i + 1) (length (questions ?s1))) ?s1"
    let ?q = "questions ?s1 ! i"
    obtain a s3 where a: "askQuestion ?q ?s2 = (a, s3)" by (cases "askQuestion ?q ?s2")
    have q3: "questions s3 = questions s" using advanced_askQuestion[OF a] by (simp add: advanced_def)
    have dr: "drop i (questions s) = questions s ! i # drop (i + 1) (questions s)"
      using True by (simp add: Cons_nth_drop_Suc)
    note ans = askQuestion_answers[OF a]
    show ?thesis
    proof (cases a)
      case (Returned u)
      have run: "runQuestions (i + 1) s3 = (r, s')"
        using "1.prems" True a Returned by (subst (asm) runQuestions.simps) (simp add: Let_def)
      obtain recs k where IH: "answers s' = answers s3 @ recs"
        "map ar_questionId recs = map q_id (take k (drop (i + 1) (questions s)))"
        "r = Returned () \<longrightarrow> map ar_questionId recs = map q_id (drop (i + 1) (questions s))"
        using "1.IH"[OF True refl refl refl a[symmetric] Returned run] q3 by auto
      obtain rec where rec: "answers s3 = answers s @ [rec]" "ar_questionId rec = q_id (questions s ! i)"
        using ans Returned by (auto simp: one_more_def)
      have "answers s' = answers s @ (rec # recs)" using IH(1) rec(1) by simp
      moreover have "map ar_questionId (rec # recs) = map q_id (take (Suc k) (drop i (questions s)))"
        using IH(2) rec(2) dr by simp
      moreover have "r = Returned () \<longrightarrow> map ar_questionId (rec # recs) = map q_id (drop i (questions s))"
        using IH(3) rec(2) dr by simp
      ultimately show ?thesis by blast
    next
      case (Thrown e)
      then have "a \<noteq> Returned ()" by simp
      from Thrown have "r = a \<and> s' = s3" using "1.prems" True a
        by (subst (asm) runQuestions.simps) (auto simp: Let_def)
      then have s': "s' = s3" "r \<noteq> Returned ()" using \<open>a \<noteq> Returned ()\<close> by simp_all
      from ans consider "answers s3 = answers s"
        | rec where "answers s3 = answers s @ [rec]" "ar_questionId rec = q_id (questions s ! i)"
        by (auto simp: at_most_one_more_def one_more_def)
      then show ?thesis
      proof cases
        case 1
        then show ?thesis using s' by (auto intro!: exI[of _ "[]"] exI[of _ 0])
      next
        case 2
        have "map ar_questionId [rec] = map q_id (take 1 (drop i (questions s)))"
          using 2(2) dr by simp
        then show ?thesis using s' 2(1) by blast
      qed
    next
      case Pending
      then have "a \<noteq> Returned ()" by simp
      from Pending have "r = a \<and> s' = s3" using "1.prems" True a
        by (subst (asm) runQuestions.simps) (auto simp: Let_def)
      then have s': "s' = s3" "r \<noteq> Returned ()" using \<open>a \<noteq> Returned ()\<close> by simp_all
      from ans consider "answers s3 = answers s"
        | rec where "answers s3 = answers s @ [rec]" "ar_questionId rec = q_id (questions s ! i)"
        by (auto simp: at_most_one_more_def one_more_def)
      then show ?thesis
      proof cases
        case 1
        then show ?thesis using s' by (auto intro!: exI[of _ "[]"] exI[of _ 0])
      next
        case 2
        have "map ar_questionId [rec] = map q_id (take 1 (drop i (questions s)))"
          using 2(2) dr by simp
        then show ?thesis using s' 2(1) by blast
      qed
    qed
  qed
qed

lemma start_answers:
  assumes "start s = (r, s')"
  shows "\<exists>recs k. answers s' = answers s @ recs \<and>
           map ar_questionId recs = map q_id (take k (questions s))"
  using assms
proof (cases rule: start_cases)
  case (confirm_thrown e)
  then have "answers s' = answers s" using undisturbed_prompts(1) by (auto simp: undisturbed_def)
  then show ?thesis by (auto intro!: exI[of _ "[]"] exI[of _ 0])
next
  case confirm_pending
  then have "answers s' = answers s" using undisturbed_prompts(1) by (auto simp: undisturbed_def)
  then show ?thesis by (auto intro!: exI[of _ "[]"] exI[of _ 0])
next
  case (cancelled s1)
  then have "answers s' = answers s" using undisturbed_prompts(1) by (auto simp: undisturbed_def)
  then show ?thesis by (auto intro!: exI[of _ "[]"] exI[of _ 0])
next
  case (completed s1 timeoutId s2 s3)
  have 1: "answers s1 = answers s" "questions s1 = questions s"
    using undisturbed_prompts(1)[OF completed(1)] by (auto simp: undisturbed_def advanced_def)
  have 2: "answers s2 = answers s" "questions s2 = questions s"
    using begin_session_fields[OF completed(2)] 1 by simp_all
  show ?thesis using runQuestions_answers[OF completed(3)] 2 completed(5) by auto
next
  case (failed s1 timeoutId s2 s3 e)
  have 1: "answers s1 = answers s" "questions s1 = questions s"
    using undisturbed_prompts(1)[OF failed(1)] by (auto simp: undisturbed_def advanced_def)
  have 2: "answers s2 = answers s" "questions s2 = questions s"
    using begin_session_fields[OF failed(2)] 1 by simp_all
  show ?thesis using runQuestions_answers[OF failed(3)] 2 failed(5) by auto
next
  case (stuck s1 timeoutId s2)
  have 1: "answers s1 = answers s" "questions s1 = questions s"
    using undisturbed_prompts(1)[OF stuck(1)] by (auto simp: undisturbed_def advanced_def)
  have 2: "answers s2 = answers s" "questions s2 = questions s"
    using begin_session_fields[OF stuck(2)] 1 by simp_all
  show ?thesis using runQuestions_answers[OF stuck(3)] 2 by auto
qed

lemma askQuestion_loop_break:
  "askQuestion_body q s = (Returned Break, s') \<Longrightarrow> askQuestion_loop q s = (Returned (), s')"
  by (subst askQuestion_loop.simps) simp

lemma askQuestion_loop_again:
  "askQuestion_body q s = (Returned EndOfBody, s') \<Longrightarrow> allowRetry s' \<Longrightarrow>
     askQuestion_loop q s = askQuestion_loop q s'"
  by (subst askQuestion_loop.simps) simp


lemma body_correct:
  assumes "attempt q s = (Returned (ua, True), s1)"
  shows "askQuestion_body q s =
      (Returned Break, (emit (Feedback True) (record_attempt q ua True s1))\<lparr>score := score s1 + 1\<rparr>)"
  using assms by (simp add: askQuestion_body_def Let_def record_attempt_def emit_def)

lemma body_incorrect:
  assumes "attempt q s = (Returned (ua, False), s1)"
    and "showCorrectAnswers q (emit (Feedback False) (record_attempt q ua False s1)) = (Inr (), s3)"
    and "allowRetry s"
  shows "askQuestion_body q s =
      (case prompt_confirm s3 of
         (Thrown e, s4) \<Rightarrow> (Thrown e, s4)
       | (Pending, s4) \<Rightarrow> (Pending, s4)
       | (Returned retry, s4) \<Rightarrow>
           if \<not> retry then (Returned Break, s4)
           else (Returned EndOfBody, (emit TryAgain s4)\<lparr>answers := butlast (answers s4)\<rparr>))"
    and "answers s3 = answers s @ [answer_of q ua False (clock s1)]"
proof -
  have 1: "undisturbed s s1" using undisturbed_attempt[OF assms(1)] .
  have 3: "undisturbed (emit (Feedback False) (record_attempt q ua False s1)) s3"
    using undisturbed_showCorrectAnswers[OF assms(2)] .
  have "allowRetry s3" using 1 3 assms(3) by (simp add: undisturbed_def advanced_def record_attempt_def)
  then show "askQuestion_body q s =
      (case prompt_confirm s3 of
         (Thrown e, s4) \<Rightarrow> (Thrown e, s4)
       | (Pending, s4) \<Rightarrow> (Pending, s4)
       | (Returned retry, s4) \<Rightarrow>
           if \<not> retry then (Returned Break, s4)
           else (Returned EndOfBody, (emit TryAgain s4)\<lparr>answers := butlast (answers s4)\<rparr>))"
    using assms(1,2)
    by (auto simp: askQuestion_body_def Let_def split: prod.splits outcome.splits)
  show "answers s3 = answers s @ [answer_of q ua False (clock s1)]"
    using 1 3 by (simp add: undisturbed_def record_attempt_def)
qed

text \<open>
  Claim C3. A question that returns has added exactly one record, for that question;
  whatever way it ends (also by a failure, or waiting for ever) it has added at most
  one. A correct attempt ends the loop with its record. After an incorrect attempt
  with retries allowed, declining ends the loop with that one record, marked incorrect;
  accepting runs the loop again from a state whose answers are those from before the
  attempt, so that the discarded record is gone before the next one is recorded. The
  answers of a session are the earlier ones followed by one record for each of the
  first \<open>k\<close> questions, in order, and for every question when the iteration completes.
\<close>

theorem one_record_per_question:
  "(askQuestion q s = (Returned (), s') \<longrightarrow>
      (\<exists>rec. answers s' = answers s @ [rec] \<and> ar_questionId rec = q_id q)) \<and>
   (askQuestion q s = (x, s') \<longrightarrow> at_most_one_more q s s') \<and>
   (attempt q s = (Returned (ua, True), s1) \<longrightarrow>
      (\<exists>s2. askQuestion_loop q s = (Returned (), s2) \<and>
            answers s2 = answers s @ [answer_of q ua True (clock s1)])) \<and>
   (attempt q s = (Returned (ua, False), s1) \<longrightarrow>
    showCorrectAnswers q (emit (Feedback False) (record_attempt q ua False s1)) = (Inr (), s3) \<longrightarrow>
    allowRetry s \<longrightarrow>
      (prompt_confirm s3 = (Returned False, s4) \<longrightarrow>
         askQuestion_loop q s = (Returned (), s4) \<and>
         answers s4 = answers s @ [answer_of q ua False (clock s1)]) \<and>
      (prompt_confirm s3 = (Returned True, s4) \<longrightarrow>
         askQuestion_loop q s =
           askQuestion_loop q ((emit TryAgain s4)\<lparr>answers := butlast (answers s4)\<rparr>) \<and>
         answers ((emit TryAgain s4)\<lparr>answers := butlast (answers s4)\<rparr>) = answers s)) \<and>
   (start s = (r, s'') \<longrightarrow>
      (\<exists>recs k. answers s'' = answers s @ recs \<and>
         map ar_questionId recs = map q_id (take k (questions s)))) \<and>
   (runQuestions 0 s = (Returned (), s'') \<longrightarrow>
      (\<exists>recs. answers s'' = answers s @ recs \<and> map ar_questionId recs = map q_id (questions s)))"
proof -
  have 1: "\<exists>rec. answers s' = answers s @ [rec] \<and> ar_questionId rec = q_id q"
    if "askQuestion q s = (Returned (), s')"
    using askQuestion_answers[OF that] by (auto simp: one_more_def)
  have 2: "at_most_one_more q s s'" if "askQuestion q s = (x, s')"
    using askQuestion_answers[OF that] by simp
  have 3: "\<exists>s2. askQuestion_loop q s = (Returned (), s2) \<and>
            answers s2 = answers s @ [answer_of q ua True (clock s1)]"
    if "attempt q s = (Returned (ua, True), s1)"
  proof -
    have "answers s1 = answers s" using undisturbed_attempt[OF that] by (simp add: undisturbed_def)
    then show ?thesis
      using askQuestion_loop_break[OF body_correct[OF that]]
      by (simp add: record_attempt_def)
  qed
  have 4: "(prompt_confirm s3 = (Returned False, s4) \<longrightarrow>
         askQuestion_loop q s = (Returned (), s4) \<and>
         answers s4 = answers s @ [answer_of q ua False (clock s1)]) \<and>
      (prompt_confirm s3 = (Returned True, s4) \<longrightarrow>
         askQuestion_loop q s =
           askQuestion_loop q ((emit TryAgain s4)\<lparr>answers := butlast (answers s4)\<rparr>) \<and>
         answers ((emit TryAgain s4)\<lparr>answers := butlast (answers s4)\<rparr>) = answers s)"
    if a: "attempt q s = (Returned (ua, False), s1)"
      and c: "showCorrectAnswers q (emit (Feedback False) (record_attempt q ua False s1)) = (Inr (), s3)"
      and ar: "allowRetry s"
  proof (intro conjI impI)
    assume p: "prompt_confirm s3 = (Returned False, s4)"
    have b: "askQuestion_body q s = (Returned Break, s4)"
      using body_incorrect(1)[OF a c ar] p by simp
    show "askQuestion_loop q s = (Returned (), s4)" using askQuestion_loop_break[OF b] .
    show "answers s4 = answers s @ [answer_of q ua False (clock s1)]"
      using body_incorrect(2)[OF a c ar] undisturbed_prompts(1)[OF p] by (simp add: undisturbed_def)
  next
    assume p: "prompt_confirm s3 = (Returned True, s4)"
    let ?s5 = "(emit TryAgain s4)\<lparr>answers := butlast (answers s4)\<rparr>"
    have b: "askQuestion_body q s = (Returned EndOfBody, ?s5)"
      using body_incorrect(1)[OF a c ar] p by simp
    have "allowRetry ?s5" using askQuestion_body_answers[OF b] by simp
    then show "askQuestion_loop q s = askQuestion_loop q ?s5"
      using askQuestion_loop_again[OF b] by simp
    show "answers ?s5 = answers s" using askQuestion_body_answers[OF b] by simp
  qed
  have 5: "\<exists>recs k. answers s'' = answers s @ recs \<and>
         map ar_questionId recs = map q_id (take k (questions s))"
    if "start s = (r, s'')"
    using start_answers[OF that] .
  have 6: "\<exists>recs. answers s'' = answers s @ recs \<and> map ar_questionId recs = map q_id (questions s)"
    if "runQuestions 0 s = (Returned (), s'')"
    using runQuestions_answers[OF that] by auto
  show ?thesis using 1 2 3 4 5 6 by blast
qed

theorem one_record_per_question_witness:
  "(\<exists>recs k. answers (snd (start retry_session)) = answers retry_session @ recs \<and>
      map ar_questionId recs = map q_id (take k (questions retry_session))) \<and>
   map (\<lambda>a. (ar_questionId a, ar_userAnswer a, ar_isCorrect a)) (answers (snd (start retry_session)))
     = [(''sc'', Chosen 1, True)] \<and>
   map (\<lambda>a. (ar_questionId a, ar_userAnswer a, ar_isCorrect a)) (answers (snd (start declined_session)))
     = [(''mc'', Selected [0], False)]"
proof -
  have "\<exists>recs k. answers (snd (start retry_session)) = answers retry_session @ recs \<and>
      map ar_questionId recs = map q_id (take k (questions retry_session))"
    using one_record_per_question[of _ retry_session _ _ _ _ _ _ "fst (start retry_session)"
        "snd (start retry_session)"]
    by simp
  moreover have "map (\<lambda>a. (ar_questionId a, ar_userAnswer a, ar_isCorrect a))
      (answers (snd (start retry_session))) = [(''sc'', Chosen 1, True)]"
    by code_simp
  moreover have "map (\<lambda>a. (ar_questionId a, ar_userAnswer a, ar_isCorrect a))
      (answers (snd (start declined_session))) = [(''mc'', Selected [0], False)]"
    by code_simp
  ultimately show ?thesis by blast
qed

section \<open>When the deadline timer fires\<close>

text \<open>
  One question with retries and a limit of one second: the user answers wrongly after
  10 ms and then never answers the retry prompt.
\<close>

definition stalled_session :: quiz where
  "stalled_session =
     new_Quiz [sc_example] 1000 True 0 [(0, Confirm True), (10, ListChoice 0)]"

text \<open>
  \<open>bounded_by b s s'\<close>: every result handed over from \<open>s\<close> to \<open>s'\<close> holds at most \<open>b\<close>
  answers and counts the questions of \<open>s\<close>.
\<close>

definition bounded_by :: "nat \<Rightarrow> quiz \<Rightarrow> quiz \<Rightarrow> bool" where
  "bounded_by b s s' \<longleftrightarrow>
     (\<exists>es. events s' = events s @ es \<and>
           list_all (\<lambda>r. length (sr_answers r) \<le> b \<and>
                          sr_totalQuestions r = length (questions s)) (saved_of es))"

lemma bounded_by_refl [simp]: "bounded_by b s s"
  by (simp add: bounded_by_def)

lemma bounded_by_mono: "bounded_by b s s' \<Longrightarrow> b \<le> b' \<Longrightarrow> bounded_by b' s s'"
  unfolding bounded_by_def by (fastforce simp: list_all_iff)

lemma bounded_by_trans:
  "bounded_by b s s1 \<Longrightarrow> bounded_by b s1 s2 \<Longrightarrow> questions s1 = questions s \<Longrightarrow> bounded_by b s s2"
  unfolding bounded_by_def by (elim exE conjE, rule_tac x = "es @ esa" in exI) auto

lemma bounded_by_undisturbed: "undisturbed s s' \<Longrightarrow> length (answers s) \<le> b \<Longrightarrow> bounded_by b s s'"
  unfolding undisturbed_def snapshots_def bounded_by_def by (auto simp: list_all_iff)

lemma bounded_by_silent:
  "events s' = events s @ es \<Longrightarrow> saved_of es = [] \<Longrightarrow> bounded_by b s s'"
  by (auto simp: bounded_by_def)

lemma bounded_by_then_undisturbed:
  "bounded_by b s s1 \<Longrightarrow> questions s1 = questions s \<Longrightarrow> undisturbed s1 s2 \<Longrightarrow>
   length (answers s1) \<le> b \<Longrightarrow> bounded_by b s s2"
  using bounded_by_trans bounded_by_undisturbed by blast

lemma bounded_by_then_silent:
  "bounded_by b s s1 \<Longrightarrow> questions s1 = questions s \<Longrightarrow> events s2 = events s1 @ es \<Longrightarrow>
   saved_of es = [] \<Longrightarrow> bounded_by b s s2"
  using bounded_by_trans bounded_by_silent by blast

text \<open>The state in which an incorrect attempt has been recorded and announced.\<close>

lemma bounded_by_recorded:
  assumes "attempt q s = (Returned (ua, ok), s1)"
  shows "bounded_by (length (answers s) + 1) s (emit (Feedback False) (record_attempt q ua False s1))"
    and "questions (emit (Feedback False) (record_attempt q ua False s1)) = questions s"
    and "length (answers (emit (Feedback False) (record_attempt q ua False s1))) = length (answers s) + 1"
proof -
  have 1: "undisturbed s s1" using undisturbed_attempt[OF assms] .
  then have q1: "questions s1 = questions s" and a1: "answers s1 = answers s"
    by (simp_all add: undisturbed_def advanced_def)
  have b1: "bounded_by (length (answers s) + 1) s s1"
    using bounded_by_undisturbed[OF 1] by simp
  show "bounded_by (length (answers s) + 1) s (emit (Feedback False) (record_attempt q ua False s1))"
    by (rule bounded_by_then_silent[OF b1 q1, of _ "[Feedback False]"])
       (simp_all add: record_attempt_def emit_def)
  show "questions (emit (Feedback False) (record_attempt q ua False s1)) = questions s"
    using q1 by (simp add: record_attempt_def)
  show "length (answers (emit (Feedback False) (record_attempt q ua False s1))) = length (answers s) + 1"
    using a1 by (simp add: record_attempt_def)
qed

lemma bounded_by_revealed:
  assumes "attempt q s = (Returned (ua, ok), s1)"
    and "showCorrectAnswers q (emit (Feedback False) (record_attempt q ua False s1)) = (c, s3)"
  shows "bounded_by (length (answers s) + 1) s s3" and "questions s3 = questions s"
    and "length (answers s3) = length (answers s) + 1"
proof -
  note r = bounded_by_recorded[OF assms(1)]
  have 3: "undisturbed (emit (Feedback False) (record_attempt q ua False s1)) s3"
    using undisturbed_showCorrectAnswers[OF assms(2)] .
  show "bounded_by (length (answers s) + 1) s s3"
    using bounded_by_then_undisturbed[OF r(1,2) 3] r(3) by simp
  show "questions s3 = questions s" using 3 r(2) by (simp add: undisturbed_def advanced_def)
  show "length (answers s3) = length (answers s) + 1" using 3 r(3) by (simp add: undisturbed_def)
qed

lemma bounded_by_asked_again:
  assumes "attempt q s = (Returned (ua, ok), s1)"
    and "showCorrectAnswers q (emit (Feedback False) (record_attempt q ua False s1)) = (c, s3)"
    and "prompt_confirm s3 = (p, s4)"
  shows "bounded_by (length (answers s) + 1) s s4" and "questions s4 = questions s"
proof -
  note r = bounded_by_revealed[OF assms(1,2)]
  have 4: "undisturbed s3 s4" using undisturbed_prompts(1)[OF assms(3)] .
  show "bounded_by (length (answers s) + 1) s s4"
    using bounded_by_then_undisturbed[OF r(1,2) 4] r(3) by simp
  show "questions s4 = questions s" using 4 r(2) by (simp add: undisturbed_def advanced_def)
qed

lemma bounded_by_body:
  assumes "askQuestion_body q s = (r, s')"
  shows "bounded_by (length (answers s) + 1) s s'"
  using assms
proof (cases rule: askQuestion_body_cases)
  case (attempt_thrown e)
  then show ?thesis using bounded_by_undisturbed[OF undisturbed_attempt] by simp
next
  case attempt_pending
  then show ?thesis using bounded_by_undisturbed[OF undisturbed_attempt] by simp
next
  case (correct ua s1)
  have 1: "undisturbed s s1" using undisturbed_attempt[OF correct(1)] .
  then have q1: "questions s1 = questions s" by (simp add: undisturbed_def advanced_def)
  have b1: "bounded_by (length (answers s) + 1) s s1"
    using bounded_by_undisturbed[OF 1] by simp
  show ?thesis
    unfolding correct(3)
    by (rule bounded_by_then_silent[OF b1 q1, of _ "[Feedback True]"])
       (simp_all add: record_attempt_def emit_def)
next
  case (reveal_thrown ua s1 e)
  then show ?thesis using bounded_by_revealed(1) by blast
next
  case (no_retry ua s1)
  then show ?thesis using bounded_by_revealed(1) by blast
next
  case (retry_thrown ua s1 s3 e)
  then show ?thesis using bounded_by_asked_again(1) by blast
next
  case (retry_pending ua s1 s3)
  then show ?thesis using bounded_by_asked_again(1) by blast
next
  case (declined ua s1 s3)
  then show ?thesis using bounded_by_asked_again(1) by blast
next
  case (accepted ua s1 s3 s4)
  note r = bounded_by_asked_again[OF accepted(1,2,4)]
  show ?thesis
    unfolding accepted(6)
    by (rule bounded_by_then_silent[OF r, of _ "[TryAgain]"]) (simp_all add: emit_def)
qed

lemma bounded_by_loop:
  assumes "askQuestion_loop q s = (r, s')"
  shows "bounded_by (length (answers s) + 1) s s'"
  using assms
proof (induction rule: askQuestion_loop_induct)
  case (stop s b)
  then show ?case using bounded_by_body by blast
next
  case (again s s1)
  have "answers s1 = answers s" using askQuestion_body_answers[OF again(1)] by simp
  moreover have "questions s1 = questions s" using advanced_body[OF again(1)] by (simp add: advanced_def)
  ultimately show ?case using bounded_by_body[OF again(1)] again(4) bounded_by_trans by simp
qed

lemma bounded_by_askQuestion:
  assumes "askQuestion q s = (r, s')"
  shows "bounded_by (length (answers s) + 1) s s'"
proof -
  let ?s0 = "emit (QuestionShown (q_id q)) s"
  have "bounded_by (length (answers s) + 1) s ?s0"
    by (rule bounded_by_silent[of _ _ "[QuestionShown (q_id q)]"]) simp_all
  moreover have "bounded_by (length (answers ?s0) + 1) ?s0 s'"
    using assms bounded_by_loop unfolding askQuestion_def by blast
  ultimately show ?thesis using bounded_by_trans[of _ s ?s0 s'] by simp
qed

lemma bounded_by_runQuestions:
  "runQuestions i s = (r, s') \<Longrightarrow>
     bounded_by (length (answers s) + (length (questions s) - i)) s s'"
proof (induction i s arbitrary: r s' rule: runQuestions.induct)
  case (1 i s)
  show ?case
  proof (cases "i < length (questions s)")
    case False
    with "1.prems" have "s' = s" by (subst (asm) runQuestions.simps) simp
    then show ?thesis by simp
  next
    case True
    let ?s1 = "s\<lparr>currentQuestionIndex := i\<rparr>"
    let ?s2 = "emit (QuestionHeader (i + 1) (length (questions ?s1))) ?s1"
    let ?q = "questions ?s1 ! i"
    let ?b = "length (answers s) + (length (questions s) - i)"
    obtain a s3 where a: "askQuestion ?q ?s2 = (a, s3)" by (cases "askQuestion ?q ?s2")
    have q3: "questions s3 = questions s" using advanced_askQuestion[OF a] by (simp add: advanced_def)
    have b2: "bounded_by ?b s ?s2"
      by (rule bounded_by_silent[of _ _ "[QuestionHeader (i + 1) (length (questions ?s1))]"]) simp_all
    have "bounded_by (length (answers ?s2) + 1) ?s2 s3" using bounded_by_askQuestion[OF a] .
    then have "bounded_by ?b ?s2 s3" using True by (auto intro: bounded_by_mono)
    then have b3: "bounded_by ?b s s3" using b2 bounded_by_trans[of ?b s ?s2 s3] by simp
    show ?thesis
    proof (cases a)
      case (Returned u)
      have run: "runQuestions (i + 1) s3 = (r, s')"
        using "1.prems" True a Returned by (subst (asm) runQuestions.simps) (simp add: Let_def)
      have "length (answers s3) = length (answers s) + 1"
        using askQuestion_answers[OF a] Returned by (auto simp: one_more_def)
      moreover have "bounded_by (length (answers s3) + (length (questions s3) - (i + 1))) s3 s'"
        using "1.IH"[OF True refl refl refl a[symmetric] Returned run] .
      ultimately have "bounded_by ?b s3 s'" using True q3 by (auto intro: bounded_by_mono)
      then show ?thesis using b3 q3 bounded_by_trans by blast
    next
      case (Thrown e)
      then have "s' = s3" using "1.prems" True a
        by (subst (asm) runQuestions.simps) (simp add: Let_def)
      with b3 show ?thesis by simp
    next
      case Pending
      then have "s' = s3" using "1.prems" True a
        by (subst (asm) runQuestions.simps) (simp add: Let_def)
      with b3 show ?thesis by simp
    qed
  qed
qed


lemma bounded_by_start:
  assumes "start s = (r, s')" and "answers s = []"
  shows "bounded_by (length (questions s)) s s'"
  using assms(1)
proof (cases rule: start_cases)
  case (confirm_thrown e)
  then show ?thesis using bounded_by_undisturbed[OF undisturbed_prompts(1)] assms(2) by simp
next
  case confirm_pending
  then show ?thesis using bounded_by_undisturbed[OF undisturbed_prompts(1)] assms(2) by simp
next
  case (cancelled s1)
  have 1: "undisturbed s s1" using undisturbed_prompts(1)[OF cancelled(1)] .
  have "bounded_by (length (questions s)) s s1" using bounded_by_undisturbed[OF 1] assms(2) by simp
  moreover have "questions s1 = questions s" using 1 by (simp add: undisturbed_def advanced_def)
  ultimately show ?thesis
    unfolding cancelled(3) by (rule bounded_by_then_silent[of _ _ _ _ "[Cancelled]"]) simp_all
next
  case (completed s1 timeoutId s2 s3)
  have 1: "undisturbed s s1" using undisturbed_prompts(1)[OF completed(1)] .
  have b1: "bounded_by (length (questions s)) s s1" using bounded_by_undisturbed[OF 1] assms(2) by simp
  have q1: "questions s1 = questions s" "answers s1 = []"
    using 1 assms(2) by (simp_all add: undisturbed_def advanced_def)
  note f = begin_session_fields[OF completed(2)]
  have b2: "bounded_by (length (questions s)) s s2"
    by (rule bounded_by_then_silent[OF b1 q1(1), of _ "[]"]) (simp_all add: f)
  have q2: "questions s2 = questions s" "answers s2 = []" using f q1 by simp_all
  have "bounded_by (length (questions s)) s2 s3"
    using bounded_by_runQuestions[OF completed(3)] q2 by simp
  then have b3: "bounded_by (length (questions s)) s s3"
    using b2 q2(1) bounded_by_trans by blast
  have q3: "questions s3 = questions s"
    using advanced_runQuestions[OF completed(3)] q2 by (simp add: advanced_def)
  obtain recs k where recs: "answers s3 = recs"
    "map ar_questionId recs = map q_id (take k (drop 0 (questions s2)))"
    using runQuestions_answers[OF completed(3)] q2 by auto
  have "length (map ar_questionId recs) \<le> length (questions s)"
    unfolding recs(2) using q2 by simp
  then have len: "length (answers s3) \<le> length (questions s)" using recs(1) by simp
  obtain c res where ev: "events s' = events s3 @ [c, SaveResult res]" "saved_of [c] = []"
    "sr_answers res = answers s3" "sr_totalQuestions res = length (questions s3)"
    using events_finishQuiz[of "clearTimeout timeoutId s3"] completed(5) by auto
  have sv: "saved_of [c, SaveResult res] = [res]"
    using ev(2) saved_of_append[of "[c]" "[SaveResult res]"] by simp
  have "bounded_by (length (questions s)) s3 s'"
    unfolding bounded_by_def using ev sv len q3 by simp
  then show ?thesis using b3 q3 bounded_by_trans by blast
next
  case (failed s1 timeoutId s2 s3 e)
  have 1: "undisturbed s s1" using undisturbed_prompts(1)[OF failed(1)] .
  have b1: "bounded_by (length (questions s)) s s1" using bounded_by_undisturbed[OF 1] assms(2) by simp
  have q1: "questions s1 = questions s" "answers s1 = []"
    using 1 assms(2) by (simp_all add: undisturbed_def advanced_def)
  note f = begin_session_fields[OF failed(2)]
  have b2: "bounded_by (length (questions s)) s s2"
    by (rule bounded_by_then_silent[OF b1 q1(1), of _ "[]"]) (simp_all add: f)
  have q2: "questions s2 = questions s" "answers s2 = []" using f q1 by simp_all
  have "bounded_by (length (questions s)) s2 s3"
    using bounded_by_runQuestions[OF failed(3)] q2 by simp
  then have b3: "bounded_by (length (questions s)) s s3"
    using b2 q2(1) bounded_by_trans by blast
  have q3: "questions s3 = questions s"
    using advanced_runQuestions[OF failed(3)] q2 by (simp add: advanced_def)
  show ?thesis
    unfolding failed(5)
    by (rule bounded_by_then_silent[OF b3 q3, of _ "[QuizError e]"]) simp_all
next
  case (stuck s1 timeoutId s2)
  have 1: "undisturbed s s1" using undisturbed_prompts(1)[OF stuck(1)] .
  have b1: "bounded_by (length (questions s)) s s1" using bounded_by_undisturbed[OF 1] assms(2) by simp
  have q1: "questions s1 = questions s" "answers s1 = []"
    using 1 assms(2) by (simp_all add: undisturbed_def advanced_def)
  note f = begin_session_fields[OF stuck(2)]
  have b2: "bounded_by (length (questions s)) s s2"
    by (rule bounded_by_then_silent[OF b1 q1(1), of _ "[]"]) (simp_all add: f)
  have q2: "questions s2 = questions s" "answers s2 = []" using f q1 by simp_all
  have "bounded_by (length (questions s)) s2 s'"
    using bounded_by_runQuestions[OF stuck(3)] q2 by simp
  then show ?thesis using b2 q2(1) bounded_by_trans by blast
qed

lemma elapse_fires:
  assumes "timer s = Some deadline" and "deadline \<le> clock s + d"
  shows "timer (elapse d s) = None"
    and "events (elapse d s) = events s @
          [TimeLimitReached,
           QuizCompleted (score s) (length (questions s)) (percentage_of (score s) (length (questions s))),
           SaveResult \<lparr>sr_timestamp = max (clock s) deadline,
                       sr_totalQuestions = length (questions s),
                       sr_correctAnswers = score s,
                       sr_percentage = percentage_of (score s) (length (questions s)),
                       sr_duration = int (max (clock s) deadline) -
                                     (case startTime s of None \<Rightarrow> 0 | Some t \<Rightarrow> int t),
                       sr_answers = answers s\<rparr>]"
  using assms by (simp_all add: elapse_def Let_def timer_callback_def finishQuiz_def emit_def)

definition armed_quiz :: quiz where
  "armed_quiz = snd (begin_session (new_Quiz [sc_example] 1000 False 0 []))"

text \<open>
  Claim C1 says that a result produced when the timer fires before the iteration
  completes always holds fewer answers than there are questions. It fails where the
  timer fires while the retry prompt of the last question is pending: the record of the
  incorrect attempt is already in \<open>this.answers\<close>, and the result holds one answer for
  one question.
\<close>

theorem deadline_during_last_retry_prompt:
  "fst (start stalled_session) = Pending \<and>
   List.member (events (snd (start stalled_session))) TimeLimitReached \<and>
   map (\<lambda>res. (length (sr_answers res), sr_totalQuestions res)) (saved (snd (start stalled_session)))
     = [(1, 1)]"
  by code_simp

text \<open>
  Claim C1, as amended. When the deadline falls within a suspension, the timer's
  callback runs finalization at once: the time-limit line, the completion line and the
  call of \<open>saveResult\<close>, with a result that holds the answers of that moment and counts
  the configured questions; the timer is then spent. Every result that a session of a
  freshly constructed quiz hands over has \<open>totalQuestions\<close> equal to the configured
  number and at most that many answers.
\<close>

theorem timer_finalizes_with_current_answers:
  "(timer s = Some deadline \<longrightarrow> deadline \<le> clock s + d \<longrightarrow>
      timer (elapse d s) = None \<and>
      events (elapse d s) = events s @
          [TimeLimitReached,
           QuizCompleted (score s) (length (questions s)) (percentage_of (score s) (length (questions s))),
           SaveResult \<lparr>sr_timestamp = max (clock s) deadline,
                       sr_totalQuestions = length (questions s),
                       sr_correctAnswers = score s,
                       sr_percentage = percentage_of (score s) (length (questions s)),
                       sr_duration = int (max (clock s) deadline) -
                                     (case startTime s of None \<Rightarrow> 0 | Some t \<Rightarrow> int t),
                       sr_answers = answers s\<rparr>]) \<and>
   (start (new_Quiz qs limit retry now ins) = (r, s') \<longrightarrow>
      list_all (\<lambda>res. sr_totalQuestions res = length qs \<and> length (sr_answers res) \<le> length qs)
        (saved s'))"
proof -
  have 2: "list_all (\<lambda>res. sr_totalQuestions res = length qs \<and> length (sr_answers res) \<le> length qs)
        (saved s')"
    if "start (new_Quiz qs limit retry now ins) = (r, s')"
    using bounded_by_start[OF that]
    by (auto simp: bounded_by_def new_Quiz_def saved_def list_all_iff)
  show ?thesis using elapse_fires 2 by blast
qed

theorem timer_finalizes_with_current_answers_witness:
  "timer (elapse 2000 armed_quiz) = None \<and>
   events (elapse 2000 armed_quiz) =
     [TimeLimitReached, QuizCompleted 0 1 (Num 0),
      SaveResult \<lparr>sr_timestamp = 1000, sr_totalQuestions = 1, sr_correctAnswers = 0,
                  sr_percentage = Num 0, sr_duration = 1000, sr_answers = []\<rparr>] \<and>
   list_all (\<lambda>res. sr_totalQuestions res = 3 \<and> length (sr_answers res) \<le> 3)
     (saved (snd (start late_session))) \<and>
   map (\<lambda>res. (length (sr_answers res), sr_totalQuestions res)) (saved (snd (start late_session)))
     = [(0, 3), (3, 3)]"
proof -
  have a: "timer armed_quiz = Some 1000" "clock armed_quiz = 0" "events armed_quiz = []"
    "score armed_quiz = 0" "length (questions armed_quiz) = 1" "answers armed_quiz = []"
    "startTime armed_quiz = Some 0"
    by (simp_all add: armed_quiz_def begin_session_def new_Quiz_def Let_def)
  have p: "percentage_of 0 1 = Num 0" by code_simp
  have 1: "timer (elapse 2000 armed_quiz) = None \<and>
   events (elapse 2000 armed_quiz) =
     [TimeLimitReached, QuizCompleted 0 1 (Num 0),
      SaveResult \<lparr>sr_timestamp = 1000, sr_totalQuestions = 1, sr_correctAnswers = 0,
                  sr_percentage = Num 0, sr_duration = 1000, sr_answers = []\<rparr>]"
    using timer_finalizes_with_current_answers[of armed_quiz 1000 2000] a p by simp
  have "start (new_Quiz [sc_example, mc_example, sc_example\<lparr>q_id := ''sc2''\<rparr>] 1000 False 0
       [(0, Confirm True), (2000, ListChoice 1), (10, Checkbox [0, 1]), (10, ListChoice 1)])
     = (fst (start late_session), snd (start late_session))"
    by (simp add: late_session_def)
  then have 2: "list_all (\<lambda>res. sr_totalQuestions res = 3 \<and> length (sr_answers res) \<le> 3)
     (saved (snd (start late_session)))"
    using timer_finalizes_with_current_answers[of armed_quiz 1000 2000
        "[sc_example, mc_example, sc_example\<lparr>q_id := ''sc2''\<rparr>]" 1000 False 0
        "[(0, Confirm True), (2000, ListChoice 1), (10, Checkbox [0, 1]), (10, ListChoice 1)]"
        "fst (start late_session)" "snd (start late_session)"]
    by (simp add: numeral_3_eq_3)
  have 3: "map (\<lambda>res. (length (sr_answers res), sr_totalQuestions res)) (saved (snd (start late_session)))
     = [(0, 3), (3, 3)]"
    by code_simp
  show ?thesis using 1 2 3 by blast
qed

section \<open>Failures during the iteration\<close>

text \<open>
  A question of a type the engine does not know, and a prompt that rejects.
\<close>

definition unsupported_session :: quiz where
  "unsupported_session =
     new_Quiz [sc_example\<lparr>q_type := ''essay''\<rparr>, sc_example] 0 False 0
       [(0, Confirm True), (5, ListChoice 1)]"

definition broken_prompt_session :: quiz where
  "broken_prompt_session =
     new_Quiz [sc_example, sc_example] 0 False 0
       [(0, Confirm True), (5, Fails ''stdin closed''), (5, ListChoice 1)]"

lemma saved_unless_timer:
  assumes "observes s s'"
  shows "TimeLimitReached \<notin> set (events s') \<Longrightarrow> saved s' = saved s"
    and "timer s = None \<Longrightarrow> saved s' = saved s \<and> timer s' = None"
  using assms by (auto simp: observes_def saved_def)

lemma saved_failed_run:
  assumes c: "prompt_confirm s = (Returned True, s1)"
    and b: "begin_session s1 = (timeoutId, s2)"
    and run: "runQuestions 0 s2 = (x, s3)"
  shows "TimeLimitReached \<notin> set (events s3) \<Longrightarrow> saved s3 = saved s"
    and "timer s = None \<Longrightarrow> timeLimit s = 0 \<Longrightarrow> saved s3 = saved s"
proof -
  have o1: "observes s s1" and t1: "timeLimit s1 = timeLimit s"
    using undisturbed_prompts(1)[OF c] by (simp_all add: undisturbed_def advanced_def)
  note f = begin_session_fields[OF b]
  have o3: "observes s2 s3" using advanced_runQuestions[OF run] by (simp add: advanced_def)
  obtain es1 where es1: "events s1 = events s @ es1" using o1 by (auto simp: observes_def)
  obtain es3 where es3: "events s3 = events s2 @ es3" using o3 by (auto simp: observes_def)
  show "saved s3 = saved s" if "TimeLimitReached \<notin> set (events s3)"
  proof -
    have "TimeLimitReached \<notin> set (events s2)" using that es3 by simp
    then have "TimeLimitReached \<notin> set (events s1)" using f by simp
    then have "saved s1 = saved s" using saved_unless_timer(1)[OF o1] by simp
    moreover have "saved s2 = saved s1" using f by (simp add: saved_def)
    moreover have "saved s3 = saved s2" using saved_unless_timer(1)[OF o3 that] .
    ultimately show ?thesis by simp
  qed
  show "saved s3 = saved s" if "timer s = None" "timeLimit s = 0"
  proof -
    have 1: "saved s1 = saved s" "timer s1 = None" using saved_unless_timer(2)[OF o1 that(1)] by simp_all
    have 2: "saved s2 = saved s1" "timer s2 = None" using f 1 t1 that(2) by (simp_all add: saved_def)
    have "saved s3 = saved s2" using saved_unless_timer(2)[OF o3 2(2)] by simp
    with 1 2 show ?thesis by simp
  qed
qed

text \<open>
  Claim C2 says that a failure during the iteration is surfaced to the caller of
  \<open>start()\<close>. It is not: the \<open>catch\<close> block writes the message to the console and
  \<open>start()\<close> returns normally. Here the first question has an unsupported type.
\<close>

theorem unsupported_type_not_raised_to_caller:
  "fst (start unsupported_session) = Returned () \<and>
   events (snd (start unsupported_session)) =
     [QuestionHeader 1 2, QuestionShown ''sc'', QuizError (UnsupportedType ''essay'')]"
  by code_simp

text \<open>
  Claim C2, as amended. A failure thrown during the iteration ends the session at once:
  \<open>start()\<close> clears the timer, writes the error to the console and returns normally,
  without running finalization; the \<open>for\<close> loop stops at the question that failed. No
  result has been handed to the history store unless the timer had fired before the
  failure, and none at all when there is no time limit. An unsupported question type
  and a rejected prompt are such failures.
\<close>

theorem iteration_failure_is_caught:
  "(prompt_confirm s = (Returned True, s1) \<longrightarrow> begin_session s1 = (timeoutId, s2) \<longrightarrow>
    runQuestions 0 s2 = (Thrown e, s3) \<longrightarrow>
      start s = (Returned (), emit (QuizError e) (clearTimeout timeoutId s3)) \<and>
      (TimeLimitReached \<notin> set (events s3) \<longrightarrow> saved (snd (start s)) = saved s) \<and>
      (timer s = None \<longrightarrow> timeLimit s = 0 \<longrightarrow> saved (snd (start s)) = saved s)) \<and>
   (i < length (questions s) \<longrightarrow>
    askQuestion (questions s ! i)
      (emit (QuestionHeader (i + 1) (length (questions s))) (s\<lparr>currentQuestionIndex := i\<rparr>))
      = (Thrown e, s3) \<longrightarrow>
      runQuestions i s = (Thrown e, s3)) \<and>
   (q_type q \<noteq> ''multiple-choice'' \<longrightarrow> q_type q \<noteq> ''single-choice'' \<longrightarrow>
    q_type q \<noteq> ''free-form'' \<longrightarrow>
      askQuestion q s = (Thrown (UnsupportedType (q_type q)), emit (QuestionShown (q_id q)) s)) \<and>
   (inputs s = (d, Fails m) # rest \<longrightarrow> fst (prompt valid s) = Thrown (PromptFailure m))"
proof -
  have 1: "start s = (Returned (), emit (QuizError e) (clearTimeout timeoutId s3)) \<and>
      (TimeLimitReached \<notin> set (events s3) \<longrightarrow> saved (snd (start s)) = saved s) \<and>
      (timer s = None \<longrightarrow> timeLimit s = 0 \<longrightarrow> saved (snd (start s)) = saved s)"
    if c: "prompt_confirm s = (Returned True, s1)" and b: "begin_session s1 = (timeoutId, s2)"
      and run: "runQuestions 0 s2 = (Thrown e, s3)"
  proof -
    have st: "start s = (Returned (), emit (QuizError e) (clearTimeout timeoutId s3))"
      using c b run by (simp add: start_def)
    have sv: "saved (snd (start s)) = saved s3" unfolding st by (simp add: saved_def)
    show ?thesis using st sv saved_failed_run[OF c b run] by simp
  qed
  have 2: "runQuestions i s = (Thrown e, s3)"
    if "i < length (questions s)"
      "askQuestion (questions s ! i)
        (emit (QuestionHeader (i + 1) (length (questions s))) (s\<lparr>currentQuestionIndex := i\<rparr>))
        = (Thrown e, s3)"
    using that by (subst runQuestions.simps) (simp add: Let_def)
  have 3: "askQuestion q s = (Thrown (UnsupportedType (q_type q)), emit (QuestionShown (q_id q)) s)"
    if "q_type q \<noteq> ''multiple-choice''" "q_type q \<noteq> ''single-choice''" "q_type q \<noteq> ''free-form''"
  proof -
    have "attempt q (emit (QuestionShown (q_id q)) s)
        = (Thrown (UnsupportedType (q_type q)), emit (QuestionShown (q_id q)) s)"
      using that by (simp add: attempt_def)
    then have "askQuestion_body q (emit (QuestionShown (q_id q)) s)
        = (Thrown (UnsupportedType (q_type q)), emit (QuestionShown (q_id q)) s)"
      by (simp add: askQuestion_body_def)
    then show ?thesis
      unfolding askQuestion_def by (subst askQuestion_loop.simps) simp
  qed
  have 4: "fst (prompt valid s) = Thrown (PromptFailure m)" if "inputs s = (d, Fails m) # rest"
    using that by (simp add: prompt_def Let_def)
  show ?thesis using 1 2 3 4 by blast
qed

theorem iteration_failure_is_caught_witness:
  "fst (start unsupported_session) = Returned () \<and>
   saved (snd (start unsupported_session)) = [] \<and>
   fst (start broken_prompt_session) = Returned () \<and>
   events (snd (start broken_prompt_session)) =
     [QuestionHeader 1 2, QuestionShown ''sc'', QuizError (PromptFailure ''stdin closed'')]"
proof -
  let ?s1 = "snd (prompt_confirm unsupported_session)"
  let ?s2 = "snd (begin_session ?s1)"
  let ?s3 = "snd (runQuestions 0 ?s2)"
  have c: "prompt_confirm unsupported_session = (Returned True, ?s1)"
    by (simp add: prod_eq_iff) code_simp
  have b: "begin_session ?s1 = (fst (begin_session ?s1), ?s2)" by simp
  have r: "runQuestions 0 ?s2 = (Thrown (UnsupportedType ''essay''), ?s3)"
    by (simp add: prod_eq_iff) code_simp
  have t: "timer unsupported_session = None" "timeLimit unsupported_session = 0"
    "saved unsupported_session = []"
    by (simp_all add: unsupported_session_def new_Quiz_def saved_def)
  have main: "start unsupported_session =
        (Returned (), emit (QuizError (UnsupportedType ''essay''))
                        (clearTimeout (fst (begin_session ?s1)) ?s3)) \<and>
      (timer unsupported_session = None \<longrightarrow> timeLimit unsupported_session = 0 \<longrightarrow>
         saved (snd (start unsupported_session)) = saved unsupported_session)"
    using iteration_failure_is_caught[of unsupported_session ?s1 "fst (begin_session ?s1)" ?s2
        "UnsupportedType ''essay''" ?s3 0 sc_example 0 "''x''" "[]" "\<lambda>r. True"] c b r
    by blast
  have "fst (start unsupported_session) = Returned ()" using main by simp
  moreover have "saved (snd (start unsupported_session)) = []" using main t by metis
  moreover have "fst (start broken_prompt_session) = Returned ()" by code_simp
  moreover have "events (snd (start broken_prompt_session)) =
     [QuestionHeader 1 2, QuestionShown ''sc'', QuizError (PromptFailure ''stdin closed'')]"
    by code_simp
  ultimately show ?thesis by blast
qed

section \<open>Calls of the history store\<close>

text \<open>
  The events that matter for the order of a session, by name: a question being
  presented, the timer firing, and a call of \<open>saveResult\<close>.
\<close>

fun milestone :: "event \<Rightarrow> string" where
  "milestone (QuestionHeader i n) = ''question '' @ digits i"
| "milestone TimeLimitReached = ''time limit reached''"
| "milestone (SaveResult r) = ''saveResult''"
| "milestone ev = []"

definition milestones :: "quiz \<Rightarrow> string list" where
  "milestones s = filter (\<lambda>l. l \<noteq> []) (map milestone (events s))"

text \<open>
  Claim C8 says that a started session calls \<open>saveResult\<close> at most once. In this
  session the timer fires while the first question is being answered: the callback
  finalizes and calls \<open>saveResult\<close> with no answers, the loop goes on to present
  questions 2 and 3, and \<open>start\<close> finalizes again, with a second call of \<open>saveResult\<close>.
\<close>

theorem saveResult_invoked_twice:
  "(case start late_session of
      (r, s') \<Rightarrow>
        r = Returned () \<and>
        milestones s' =
          [''question 1'', ''time limit reached'', ''saveResult'', ''question 2'',
           ''question 3'', ''saveResult''] \<and>
        length (saved s') = 2 \<and>
        map sr_timestamp (saved s') = [1000, 2020] \<and>
        map (\<lambda>res. length (sr_answers res)) (saved s') = [0, 3])"
  by code_simp

end
